theory Spec2Isabelle
  imports Main "HOL-Library.AList"
begin

section \<open>Import adapters (packages/ui/src/import.ts)\<close>

subsection \<open>JavaScript values, exceptions and array reads\<close>

text \<open>
  Modelled from the spec: the enum \<open>ErrorCode\<close> of core/lib/error.js is not among the
  sources. Its members here are the two the sources name (\<open>INVALID_CSV\<close> in import.ts,
  \<open>NOT_FOUND\<close> in the integration test) and the codes of the taxonomy of section 6 of
  the specification.
\<close>

datatype ErrorCode =
  INVALID_CSV | NOT_FOUND | UNAUTHORIZED | INVALID_INVITE | INVALID_CREDENTIALS
  | EXPIRED_INVITE | CRYPTO_FAILURE

definition spec_taxonomy :: "ErrorCode list" where
  "spec_taxonomy =
     [NOT_FOUND, UNAUTHORIZED, INVALID_INVITE, INVALID_CREDENTIALS, EXPIRED_INVITE,
      CRYPTO_FAILURE]"

text \<open>
  What a JavaScript function can throw here: the \<open>TypeError\<close> of the runtime (a property
  read on \<open>undefined\<close> or \<open>null\<close>), the \<open>SyntaxError\<close> of \<open>JSON.parse\<close>, or an
  \<open>Err\<close> object carrying an error code.
  A function that may throw returns \<open>js_exn + 'a\<close>, with \<open>Inl\<close> for the exception.
\<close>

datatype js_exn = TypeError | SyntaxError | Err ErrorCode




text \<open>
  The array read \<open>xs[i]\<close>: \<open>None\<close> stands for \<open>undefined\<close>, which JavaScript returns
  for an index outside the array (a negative one included).
\<close>

definition at :: "'a list \<Rightarrow> int \<Rightarrow> 'a option" where
  "at xs i = (if 0 \<le> i \<and> i < int (length xs) then Some (xs ! nat i) else None)"

text \<open>\<open>Array.prototype.indexOf\<close>: the first index of the element, or \<open>-1\<close>.\<close>

fun indexOf :: "'a list \<Rightarrow> 'a \<Rightarrow> int" where
  "indexOf [] x = - 1"
| "indexOf (y # ys) x =
     (if y = x then 0 else (let i = indexOf ys x in if i = - 1 then - 1 else i + 1))"

text \<open>
  \<open>String.prototype.split\<close> with a separator of one character: the pieces between the
  occurrences of the separator, so never an empty array.
\<close>

fun js_split :: "char \<Rightarrow> string \<Rightarrow> string list" where
  "js_split c [] = [[]]"
| "js_split c (x # xs) =
     (if x = c then [] # js_split c xs
      else (case js_split c xs of
              [] \<Rightarrow> [[x]]
            | p # ps \<Rightarrow> (x # p) # ps))"

subsection \<open>Format sniffing: isFromPadlock and isFromLastPass\<close>




subsection \<open>Tables to items: fromTable and fromCSV\<close>

text \<open>
  A field as \<open>fromTable\<close> builds it: \<open>{ name: colNames[i], value: row[i] }\<close>. The name
  is \<open>undefined\<close> (\<open>None\<close>) where the row is longer than the header row.
\<close>

record Field =
  fname :: "string option"
  fvalue :: string

text \<open>
  The loop \<open>for (let i = 0; i < row.length; i++)\<close> of \<open>fromTable\<close>, from index \<open>i\<close>
  with the fields \<open>fs\<close> pushed so far. \<open>colNames\<close> is \<open>data[0]\<close>, which is \<open>undefined\<close>
  for an empty table; reading \<open>colNames[i]\<close> then throws.
\<close>

function fields_loop ::
  "string list option \<Rightarrow> int \<Rightarrow> int \<Rightarrow> string list \<Rightarrow> nat \<Rightarrow> Field list \<Rightarrow> js_exn + Field list"
where
  "fields_loop colNames nameColIndex tagsColIndex row i fs =
     (if i < length row then
        (if int i \<noteq> nameColIndex \<and> int i \<noteq> tagsColIndex \<and> row ! i \<noteq> [] then
           (case colNames of
              None \<Rightarrow> Inl TypeError
            | Some cs \<Rightarrow>
                fields_loop colNames nameColIndex tagsColIndex row (i + 1)
                  (fs @ [\<lparr>fname = at cs (int i), fvalue = row ! i\<rparr>]))
         else fields_loop colNames nameColIndex tagsColIndex row (i + 1) fs)
      else Inr fs)"
  by pat_completeness auto
termination
  by (relation "measure (\<lambda>(cn, n, t, row, i, fs). length row - i)") auto

declare fields_loop.simps [simp del]

text \<open>The tags argument: \<open>(tags && tags.split(",")) || []\<close> with \<open>tags = row[tagsColIndex]\<close>.\<close>

definition row_tags :: "string list \<Rightarrow> int \<Rightarrow> string list" where
  "row_tags row tagsColIndex =
     (case at row tagsColIndex of
        None \<Rightarrow> []
      | Some tags \<Rightarrow> if tags = [] then [] else js_split (CHR '','') tags)"

text \<open>
  The function mapped over the rows. \<open>createVaultItem\<close> (core/lib/data.js) is not among
  the sources and is a parameter: it receives the name \<open>row[nameColIndex]\<close>
  (\<open>undefined\<close> where the row has no such cell), the fields and the tags.
\<close>

definition row_item ::
  "(string option \<Rightarrow> Field list \<Rightarrow> string list \<Rightarrow> 'item) \<Rightarrow> string list option \<Rightarrow> int \<Rightarrow> int
     \<Rightarrow> string list \<Rightarrow> js_exn + 'item"
where
  "row_item createVaultItem colNames nameColIndex tagsColIndex row =
     (case fields_loop colNames nameColIndex tagsColIndex row 0 [] of
        Inl e \<Rightarrow> Inl e
      | Inr fs \<Rightarrow>
          Inr (createVaultItem (at row nameColIndex) fs (row_tags row tagsColIndex)))"

text \<open>\<open>Array.prototype.map\<close> with a callback that may throw: the first exception ends it.\<close>

fun map_exn :: "('a \<Rightarrow> js_exn + 'b) \<Rightarrow> 'a list \<Rightarrow> js_exn + 'b list" where
  "map_exn f [] = Inr []"
| "map_exn f (x # xs) =
     (case f x of
        Inl e \<Rightarrow> Inl e
      | Inr y \<Rightarrow> (case map_exn f xs of Inl e \<Rightarrow> Inl e | Inr ys \<Rightarrow> Inr (y # ys)))"

text \<open>
  The default of \<open>nameColIndex\<close>: \<open>colNames.indexOf("name")\<close>, or 0 when there is no such
  column. An index the caller gives is used as it is. \<open>colNames.indexOf\<close> throws
  when \<open>colNames\<close> is \<open>undefined\<close>.
\<close>

definition default_nameColIndex :: "string list option \<Rightarrow> int option \<Rightarrow> js_exn + int" where
  "default_nameColIndex colNames nameColIndex =
     (case nameColIndex of
        Some n \<Rightarrow> Inr n
      | None \<Rightarrow>
          (case colNames of
             None \<Rightarrow> Inl TypeError
           | Some cs \<Rightarrow> (let i = indexOf cs ''name'' in Inr (if i \<noteq> - 1 then i else 0))))"

text \<open>
  The default of \<open>tagsColIndex\<close>: the column \<open>"tags"\<close>, else the column \<open>"category"\<close>,
  else \<open>-1\<close>.
\<close>

definition default_tagsColIndex :: "string list option \<Rightarrow> int option \<Rightarrow> js_exn + int" where
  "default_tagsColIndex colNames tagsColIndex =
     (case tagsColIndex of
        Some t \<Rightarrow> Inr t
      | None \<Rightarrow>
          (case colNames of
             None \<Rightarrow> Inl TypeError
           | Some cs \<Rightarrow>
               (let t = indexOf cs ''tags'' in
                Inr (if t = - 1 then indexOf cs ''category'' else t))))"

text \<open>
  \<open>fromTable\<close>. The column indices are integers here (\<open>None\<close> for an argument left
  out); \<open>data.slice(1)\<close> is \<open>drop 1 data\<close>.
\<close>

definition fromTable ::
  "(string option \<Rightarrow> Field list \<Rightarrow> string list \<Rightarrow> 'item) \<Rightarrow> string list list \<Rightarrow> int option
     \<Rightarrow> int option \<Rightarrow> js_exn + 'item list"
where
  "fromTable createVaultItem data nameColIndex tagsColIndex =
     (let colNames = at data 0 in
      case default_nameColIndex colNames nameColIndex of
        Inl e \<Rightarrow> Inl e
      | Inr n \<Rightarrow>
          (case default_tagsColIndex colNames tagsColIndex of
             Inl e \<Rightarrow> Inl e
           | Inr t \<Rightarrow> map_exn (row_item createVaultItem colNames n t) (drop 1 data)))"

text \<open>
  What \<open>papa.parse(data)\<close> returns, as far as \<open>fromCSV\<close> reads it: the rows
  (\<open>parsed.data\<close>, here \<open>rows\<close>) and the parse errors (\<open>parsed.errors\<close>). PapaParse is a
  vendored library loaded at run time (\<open>loadPapa\<close>); the loaded parser is a parameter.
\<close>

record 'err ParseResult =
  rows :: "string list list"
  errors :: "'err list"

text \<open>\<open>fromCSV\<close>: rejects with \<open>Err(INVALID_CSV)\<close> when \<open>parsed.errors.length\<close> is not 0.\<close>

definition fromCSV ::
  "(string option \<Rightarrow> Field list \<Rightarrow> string list \<Rightarrow> 'item) \<Rightarrow> (string \<Rightarrow> 'err ParseResult) \<Rightarrow> string
     \<Rightarrow> int option \<Rightarrow> int option \<Rightarrow> js_exn + 'item list"
where
  "fromCSV createVaultItem parse data nameColIndex tagsColIndex =
     (let parsed = parse data in
      if length (errors parsed) \<noteq> 0 then Inl (Err INVALID_CSV)
      else fromTable createVaultItem (rows parsed) nameColIndex tagsColIndex)"

text \<open>
  The fields the claim describes, written as a comprehension: the cells of the row that
  are not in the name column, not in the tags column and not empty, in order, each
  under the name of its column.
\<close>

definition cells_kept :: "string list \<Rightarrow> int \<Rightarrow> int \<Rightarrow> string list \<Rightarrow> Field list" where
  "cells_kept cs n t row =
     map (\<lambda>i. \<lparr>fname = at cs (int i), fvalue = row ! i\<rparr>)
       (filter (\<lambda>i. int i \<noteq> n \<and> int i \<noteq> t \<and> row ! i \<noteq> []) [0..<length row])"

section \<open>Vault synchronisation (specification, sections 3 to 5)\<close>

text \<open>
  The classes \<open>Vault\<close>, \<open>App\<close> and \<open>Server\<close> of packages/core are not among the
  sources: only the integration test that calls them is (core/test/app.ts). This section
  models them from the specification, one definition per sentence of it.
\<close>

subsection \<open>Data model\<close>

text \<open>
  Modelled from the spec: the entries of a vault's collections (the classes of
  core/src are missing). Section 3 gives a \<open>VaultItem\<close> a "last-modified revision stamp"
  and a "tombstone flag", and section 4.1 merges the membership map "by the same per-entry
  revision rule", removals included; so an entry of either collection is a stamp, a
  tombstone flag and the content.
\<close>

record 'a Entry =
  stamp :: nat
  tombstone :: bool
  payload :: 'a

text \<open>
  Modelled from the spec: \<open>Field\<close> (core/src/data is missing), section 3: "name/value
  pair; masked fields denote sensitive values".
\<close>

record VaultField =
  field_name :: string
  field_value :: string
  masked :: bool

text \<open>
  Modelled from the spec: the content of a \<open>VaultItem\<close> (core/src/data is missing),
  section 3: "name, ordered sequence of Field, set of tags". The id is the key under which
  the vault holds the item.
\<close>

record VaultItem =
  item_name :: string
  item_fields :: "VaultField list"
  item_tags :: "string list"

text \<open>Modelled from the spec: the roles of section 3 (core/src/vault is missing).\<close>

datatype Role = Owner | Admin | Member

text \<open>
  Modelled from the spec: the content of a \<open>Member\<close> entry (core/src/vault is missing),
  section 3: "account id, public key, role, join revision"; the account id is the key, the
  revision is the entry's stamp.
\<close>

record MemberInfo =
  role :: Role
  publicKey :: string

text \<open>
  Modelled from the spec: \<open>Vault\<close> (core/src/vault is missing), section 3, with the
  parts the merge and the synchronisation read: the id, the "monotonically increasing
  revision counter", the membership map keyed by account id and the "mapping from item id
  to VaultItem". The two maps are association lists, as a JavaScript \<open>Map\<close> keeps its
  entries in insertion order; \<open>map_of\<close> reads them.
\<close>

record Vault =
  vault_id :: string
  revision :: nat
  members :: "(string \<times> MemberInfo Entry) list"
  items :: "(string \<times> VaultItem Entry) list"

subsection \<open>The merge algorithm (section 4.1)\<close>

text \<open>
  Modelled from the spec: the comparison of two entries of the same id in the merge of
  \<open>Vault\<close> (core/src/vault is missing). \<open>newer x y\<close>: entry \<open>x\<close> wins over entry \<open>y\<close>.
  "Higher revision stamp wins; a tombstone with revision \<open>\<ge>\<close> the other side's last update
  wins over a live edit; a live edit with revision \<open>>\<close> the delete's revision wins over the
  delete." On equal stamps a tombstone therefore wins over a live entry, as the property
  "if B's update is at revision \<open>\<le> r\<close>, X is absent" of section 8 asks; on equal stamps
  otherwise neither wins ("stamps equal: no-op").
\<close>

definition newer :: "'a Entry \<Rightarrow> 'a Entry \<Rightarrow> bool" where
  "newer x y \<longleftrightarrow> stamp y < stamp x \<or> (stamp x = stamp y \<and> tombstone x \<and> \<not> tombstone y)"

text \<open>
  Modelled from the spec: the merge of a local and a remote entry of the same id (the
  merge of core/src/vault is missing). The remote entry is adopted when it wins, the local
  one is kept otherwise. The entry that wins keeps its own stamp: a live edit that wins
  over a delete carries a revision past the delete's already.
\<close>

definition merge_entry :: "'a Entry \<Rightarrow> 'a Entry \<Rightarrow> 'a Entry" where
  "merge_entry l r = (if newer r l then r else l)"

text \<open>
  Modelled from the spec: the merge of a collection (core/src/vault is missing), "per
  item id": an entry "present only locally" is kept, one "present on both" is merged, one
  "present only remotely" is adopted (appended after the local entries).
\<close>

definition merge_entries ::
  "('k \<times> 'a Entry) list \<Rightarrow> ('k \<times> 'a Entry) list \<Rightarrow> ('k \<times> 'a Entry) list" where
  "merge_entries local remote =
     map (\<lambda>(k, l). (k, case map_of remote k of None \<Rightarrow> l | Some r \<Rightarrow> merge_entry l r)) local
     @ filter (\<lambda>(k, r). map_of local k = None) remote"

text \<open>
  Modelled from the spec: \<open>Vault.merge\<close> (core/src/vault is missing). Items and
  members are merged entry by entry; "the Vault's revision counter is advanced to
  \<open>max(local, remote) + 1\<close> only if a change was applied".
\<close>

definition merge :: "Vault \<Rightarrow> Vault \<Rightarrow> Vault" where
  "merge local remote =
     (let its = merge_entries (items local) (items remote);
          mbs = merge_entries (members local) (members remote);
          changed = (its \<noteq> items local \<or> mbs \<noteq> members local)
      in local\<lparr>revision := (if changed then max (revision local) (revision remote) + 1
                             else revision local),
               members := mbs, items := its\<rparr>)"

subsection \<open>Local mutations (section 4.3)\<close>

text \<open>
  Modelled from the spec: \<open>App.createItem\<close> (core/src/app is missing), on the replica it
  changes: "local mutation + local revision bump". The vault's counter is advanced by one
  and the new entry, live, is stamped with it and stored under its id (\<open>Map.set\<close>: a new
  key is appended).
\<close>

definition createItem :: "Vault \<Rightarrow> string \<Rightarrow> VaultItem \<Rightarrow> Vault" where
  "createItem v i d =
     (let r = revision v + 1 in
      v\<lparr>revision := r,
        items := AList.update i \<lparr>stamp = r, tombstone = False, payload = d\<rparr> (items v)\<rparr>)"

text \<open>
  Modelled from the spec: \<open>App.updateItem\<close> (core/src/app is missing): "local mutation +
  local revision bump". The entry of the item gets the new content \<open>upd\<close> makes of the old
  one, and the advanced counter as its stamp; a vault without the item keeps its entries.
\<close>

definition updateItem :: "Vault \<Rightarrow> string \<Rightarrow> (VaultItem \<Rightarrow> VaultItem) \<Rightarrow> Vault" where
  "updateItem v i upd =
     (let r = revision v + 1 in
      v\<lparr>revision := r,
        items := AList.map_entry i
                   (\<lambda>e. \<lparr>stamp = r, tombstone = False, payload = upd (payload e)\<rparr>) (items v)\<rparr>)"

text \<open>
  Modelled from the spec: \<open>App.deleteItems\<close> (core/src/app is missing): "local mutation +
  local revision bump", and "never physically remove an entry" (section 9): each item
  named becomes a tombstone stamped with the advanced counter.
\<close>

definition deleteItems :: "Vault \<Rightarrow> string list \<Rightarrow> Vault" where
  "deleteItems v ids =
     (let r = revision v + 1 in
      v\<lparr>revision := r,
        items := map (\<lambda>(k, e). (k, if k \<in> set ids then e\<lparr>stamp := r, tombstone := True\<rparr> else e))
                   (items v)\<rparr>)"

text \<open>
  Modelled from the spec: \<open>App.getItem\<close> (core/src/app is missing), on one vault: the
  item of that id that the replica shows, none for a tombstone.
\<close>

definition getItem :: "Vault \<Rightarrow> string \<Rightarrow> VaultItem option" where
  "getItem v i =
     (case map_of (items v) i of
        None \<Rightarrow> None
      | Some e \<Rightarrow> if tombstone e then None else Some (payload e))"

text \<open>
  Modelled from the spec: \<open>Vault.isMember\<close> (core/src/vault is missing): the account has
  an entry in the membership map that is not a removal.
\<close>

definition isMember :: "Vault \<Rightarrow> string \<Rightarrow> bool" where
  "isMember v a = (case map_of (members v) a of None \<Rightarrow> False | Some e \<Rightarrow> \<not> tombstone e)"

subsection \<open>The Server (section 4.4)\<close>

text \<open>
  Modelled from the spec: the push handler of \<open>Server\<close> (core/src/server is missing), on
  the authoritative copy of one vault id. "On push: accepts a client's Vault snapshot,
  merges it against its own authoritative copy using the identical algorithm, persists the
  result, and returns the merged snapshot"; "a request for a vault the requesting account
  is not a member of fails with an authorization error".
\<close>

definition server_push :: "Vault \<Rightarrow> string \<Rightarrow> Vault \<Rightarrow> ErrorCode + Vault" where
  "server_push authoritative requester snapshot =
     (if isMember authoritative requester then Inr (merge authoritative snapshot)
      else Inl UNAUTHORIZED)"

text \<open>
  Modelled from the spec: the pull handler of \<open>Server\<close> (core/src/server is missing).
  "On pull: returns the current authoritative snapshot for a vault id, or a not-found error
  if the requester is not a current member."
\<close>

definition server_pull :: "Vault \<Rightarrow> string \<Rightarrow> ErrorCode + Vault" where
  "server_pull authoritative requester =
     (if isMember authoritative requester then Inr authoritative else Inl NOT_FOUND)"

subsection \<open>Two replicas and the Server (section 5)\<close>

text \<open>
  Modelled from the spec: what an \<open>App\<close> (core/src/app is missing) holds of one vault:
  the account it acts for and its local replica.
\<close>

record Replica =
  account :: string
  vault :: Vault

text \<open>
  Modelled from the spec: the state the integration test runs on (the classes are
  missing): the two devices \<open>app\<close> and \<open>otherApp\<close>, each with its replica of the shared
  vault, and the Server's authoritative copy. "There is no shared in-process mutable state
  between App instances: all coordination happens through the Server."
\<close>

record System =
  app :: Replica
  otherApp :: Replica
  server :: Vault

text \<open>Modelled from the spec: the names of the two devices of the test (the classes are missing).\<close>

datatype Device = App | OtherApp

text \<open>
  Modelled from the spec: the two requests of \<open>App.syncVault\<close> (core/src/app is missing):
  "push local changes, pull authoritative snapshot, merge".
\<close>

datatype Request = Push Device | Pull Device

text \<open>
  Modelled from the spec: reading and replacing a device's replica in the state (the
  classes are missing).
\<close>

fun replica :: "Device \<Rightarrow> System \<Rightarrow> Replica" where
  "replica App sys = app sys"
| "replica OtherApp sys = otherApp sys"

fun set_vault :: "Device \<Rightarrow> Vault \<Rightarrow> System \<Rightarrow> System" where
  "set_vault App v sys = sys\<lparr>app := (app sys)\<lparr>vault := v\<rparr>\<rparr>"
| "set_vault OtherApp v sys = sys\<lparr>otherApp := (otherApp sys)\<lparr>vault := v\<rparr>\<rparr>"

text \<open>
  Modelled from the spec: one request of a device, served by the Server in one piece ("the
  Server must serialize merge-and-persist per vault id"). A push leaves the merged
  snapshot as the Server's copy; a pull merges the snapshot returned into the device's
  replica. A request that fails changes nothing ("sync failures leave local state
  untouched") and is reported.
\<close>

fun step :: "Request \<Rightarrow> System \<Rightarrow> ErrorCode + System" where
  "step (Push d) sys =
     (case server_push (server sys) (account (replica d sys)) (vault (replica d sys)) of
        Inl e \<Rightarrow> Inl e
      | Inr merged \<Rightarrow> Inr (sys\<lparr>server := merged\<rparr>))"
| "step (Pull d) sys =
     (case server_pull (server sys) (account (replica d sys)) of
        Inl e \<Rightarrow> Inl e
      | Inr snapshot \<Rightarrow> Inr (set_vault d (merge (vault (replica d sys)) snapshot) sys))"

text \<open>Modelled from the spec: a sequence of requests (the classes are missing); the first error ends it.\<close>

fun run :: "Request list \<Rightarrow> System \<Rightarrow> ErrorCode + System" where
  "run [] sys = Inr sys"
| "run (q # qs) sys = (case step q sys of Inl e \<Rightarrow> Inl e | Inr sys' \<Rightarrow> run qs sys')"

text \<open>
  Modelled from the spec: \<open>App.syncVault\<close> (core/src/app is missing): the push, then the
  pull, of one device.
\<close>

definition syncVault :: "Device \<Rightarrow> Request list" where
  "syncVault d = [Push d, Pull d]"

text \<open>
  Modelled from the spec: one round of the test,
  \<open>Promise.all([app.syncVault(...), otherApp.syncVault(...)])\<close>: the requests of the two
  devices in any interleaving that keeps each device's push before its pull
  ("synchronization operations may be issued concurrently by multiple devices").
\<close>

definition sync_round :: "Request list set" where
  "sync_round = shuffles (syncVault App) (syncVault OtherApp)"

subsection \<open>The view of one id, for the proofs\<close>

text \<open>
  The definitions of this subsection model nothing of their own: they describe what the
  definitions above do at one id, and the proofs work on them.

  The order the merge follows, as a number: an absent entry is below every entry, a higher
  stamp is above a lower one, and on equal stamps a tombstone is above a live entry.
\<close>

definition rank :: "'a Entry option \<Rightarrow> nat" where
  "rank x = (case x of None \<Rightarrow> 0 | Some e \<Rightarrow> 2 * stamp e + (if tombstone e then 1 else 0) + 1)"

text \<open>What \<open>merge_entries\<close> leaves under one id, from what the two sides hold there.\<close>

definition merge_opt :: "'a Entry option \<Rightarrow> 'a Entry option \<Rightarrow> 'a Entry option" where
  "merge_opt l r =
     (case l of None \<Rightarrow> r | Some x \<Rightarrow> (case r of None \<Rightarrow> l | Some y \<Rightarrow> Some (merge_entry x y)))"

text \<open>
  A request, on what \<open>app\<close>, \<open>otherApp\<close> and the Server hold under one id (in this
  order).
\<close>

fun pstep ::
  "Request \<Rightarrow> 'a Entry option \<times> 'a Entry option \<times> 'a Entry option
     \<Rightarrow> 'a Entry option \<times> 'a Entry option \<times> 'a Entry option" where
  "pstep (Push App) (a, b, s) = (a, b, merge_opt s a)"
| "pstep (Push OtherApp) (a, b, s) = (a, b, merge_opt s b)"
| "pstep (Pull App) (a, b, s) = (merge_opt a s, b, s)"
| "pstep (Pull OtherApp) (a, b, s) = (a, merge_opt b s, s)"

definition prun ::
  "Request list \<Rightarrow> 'a Entry option \<times> 'a Entry option \<times> 'a Entry option
     \<Rightarrow> 'a Entry option \<times> 'a Entry option \<times> 'a Entry option" where
  "prun qs t = fold pstep qs t"

definition comps :: "'x \<times> 'x \<times> 'x \<Rightarrow> 'x set" where
  "comps t = {fst t, fst (snd t), snd (snd t)}"

text \<open>The three hold entries of \<open>C\<close>, and the Server holds \<open>m\<close>.\<close>

definition settled ::
  "'a Entry option set \<Rightarrow> 'a Entry option
     \<Rightarrow> 'a Entry option \<times> 'a Entry option \<times> 'a Entry option \<Rightarrow> bool" where
  "settled C m t \<longleftrightarrow> comps t \<subseteq> C \<and> snd (snd t) = m"

definition items_at ::
  "string \<Rightarrow> System \<Rightarrow> VaultItem Entry option \<times> VaultItem Entry option \<times> VaultItem Entry option" where
  "items_at k sys =
     (map_of (items (vault (app sys))) k, map_of (items (vault (otherApp sys))) k,
      map_of (items (server sys)) k)"



text \<open>The two replicas and the Server hold the same membership map.\<close>

definition members_synced :: "(string \<rightharpoonup> MemberInfo Entry) \<Rightarrow> System \<Rightarrow> bool" where
  "members_synced mv sys \<longleftrightarrow>
     map_of (members (vault (app sys))) = mv \<and> map_of (members (vault (otherApp sys))) = mv
     \<and> map_of (members (server sys)) = mv"

subsection \<open>The states the properties start from\<close>

text \<open>
  No entry is stamped past the vault's revision counter: the bound that local mutations
  and merges keep, every stamp being taken from the counter.
\<close>

definition stamps_bounded :: "Vault \<Rightarrow> bool" where
  "stamps_bounded v \<longleftrightarrow>
     (\<forall>(k, e) \<in> set (items v). stamp e \<le> revision v)
     \<and> (\<forall>(k, e) \<in> set (members v). stamp e \<le> revision v)"




text \<open>Two association lists hold the same entries under the same keys, in whatever order.\<close>

definition same_entries :: "('k \<times> 'v) list \<Rightarrow> ('k \<times> 'v) list \<Rightarrow> bool" where
  "same_entries xs ys \<longleftrightarrow> (\<forall>k \<in> set (map fst xs @ map fst ys). map_of xs k = map_of ys k)"

text \<open>
  The two replicas are in step with the Server: each holds the entries the Server holds,
  under the same item ids and account ids. The orders of the entries and the revision
  counters may differ, as they do after a synchronisation.
\<close>

definition in_step :: "Vault \<Rightarrow> Vault \<Rightarrow> Vault \<Rightarrow> bool" where
  "in_step a b s \<longleftrightarrow>
     same_entries (items a) (items s) \<and> same_entries (items b) (items s)
     \<and> same_entries (members a) (members s) \<and> same_entries (members b) (members s)"

section \<open>Concrete inputs\<close>


text \<open>
  A CSV text of a header and two lines, and a stand-in for the parser that reads it into
  its three rows and reports an error on every other string. The name column is the
  second one, the tags are in the column \<open>category\<close>, the first line has an empty cell
  and one cell more than the header, the second line has one cell only.
\<close>

definition toy_csv :: string where
  "toy_csv = ''url,name,category,notes'' @ [CHR 0x0A] @ ''https://github.com,GitHub,\"dev,work\",,x''
               @ [CHR 0x0A] @ ''a''"

definition toy_parse :: "string \<Rightarrow> unit ParseResult" where
  "toy_parse s =
     (if s = toy_csv then
        \<lparr>rows = [[''url'', ''name'', ''category'', ''notes''],
                 [''https://github.com'', ''GitHub'', ''dev,work'', '''', ''x''],
                 [''a'']],
         errors = []\<rparr>
      else \<lparr>rows = [], errors = [()]\<rparr>)"

text \<open>A stand-in for \<open>createVaultItem\<close> that keeps its three arguments.\<close>

definition toy_item :: "string option \<Rightarrow> Field list \<Rightarrow> string list \<Rightarrow> string option \<times> Field list \<times> string list" where
  "toy_item name fs tags = (name, fs, tags)"

text \<open>A vault of two members with one item, as the test has it before the simultaneous edit.\<close>

definition ann :: "MemberInfo Entry" where
  "ann = \<lparr>stamp = 1, tombstone = False, payload = \<lparr>role = Owner, publicKey = ''pk-ann''\<rparr>\<rparr>"

definition bob :: "MemberInfo Entry" where
  "bob = \<lparr>stamp = 2, tombstone = False, payload = \<lparr>role = Member, publicKey = ''pk-bob''\<rparr>\<rparr>"

definition memo :: "string \<Rightarrow> VaultItem" where
  "memo n = \<lparr>item_name = n, item_fields = [], item_tags = []\<rparr>"

definition V0 :: Vault where
  "V0 = \<lparr>vault_id = ''v1'', revision = 3,
         members = [(''ann'', ann), (''bob'', bob)],
         items = [(''i0'', \<lparr>stamp = 3, tombstone = False, payload = memo ''My Vault Item''\<rparr>)]\<rparr>"

text \<open>
  The replicas of \<open>app\<close> and of \<open>otherApp\<close> and the Server's copy after both devices
  have added an item to \<open>V0\<close> and synchronised twice: the same entries, in two orders,
  under three revision counters.
\<close>

definition Va :: Vault where
  "Va = \<lparr>vault_id = ''v1'', revision = 7,
         members = [(''ann'', ann), (''bob'', bob)],
         items = [(''i0'', \<lparr>stamp = 3, tombstone = False, payload = memo ''My Vault Item''\<rparr>),
                  (''i1'', \<lparr>stamp = 4, tombstone = False, payload = memo ''Added Item 1''\<rparr>),
                  (''i2'', \<lparr>stamp = 4, tombstone = False, payload = memo ''Added Item 2''\<rparr>)]\<rparr>"

definition Vb :: Vault where
  "Vb = \<lparr>vault_id = ''v1'', revision = 7,
         members = [(''ann'', ann), (''bob'', bob)],
         items = [(''i0'', \<lparr>stamp = 3, tombstone = False, payload = memo ''My Vault Item''\<rparr>),
                  (''i2'', \<lparr>stamp = 4, tombstone = False, payload = memo ''Added Item 2''\<rparr>),
                  (''i1'', \<lparr>stamp = 4, tombstone = False, payload = memo ''Added Item 1''\<rparr>)]\<rparr>"

definition Vs :: Vault where
  "Vs = \<lparr>vault_id = ''v1'', revision = 6,
         members = [(''ann'', ann), (''bob'', bob)],
         items = [(''i0'', \<lparr>stamp = 3, tombstone = False, payload = memo ''My Vault Item''\<rparr>),
                  (''i1'', \<lparr>stamp = 4, tombstone = False, payload = memo ''Added Item 1''\<rparr>),
                  (''i2'', \<lparr>stamp = 4, tombstone = False, payload = memo ''Added Item 2''\<rparr>)]\<rparr>"

text \<open>
  A replica on which the item was edited and the second member was made an admin, and a
  copy of the Server that holds one more item and one more member than \<open>V0\<close>.
\<close>

definition Wb :: Vault where
  "Wb = \<lparr>vault_id = ''v1'', revision = 5,
         members = [(''ann'', ann),
                    (''bob'', \<lparr>stamp = 4, tombstone = False,
                               payload = \<lparr>role = Admin, publicKey = ''pk-bob''\<rparr>\<rparr>)],
         items = [(''i0'', \<lparr>stamp = 5, tombstone = False, payload = memo ''Edited Vault Item''\<rparr>)]\<rparr>"

definition Ws :: Vault where
  "Ws = \<lparr>vault_id = ''v1'', revision = 6,
         members = [(''ann'', ann), (''bob'', bob),
                    (''carol'', \<lparr>stamp = 5, tombstone = False,
                                 payload = \<lparr>role = Member, publicKey = ''pk-carol''\<rparr>\<rparr>)],
         items = [(''i0'', \<lparr>stamp = 3, tombstone = False, payload = memo ''My Vault Item''\<rparr>),
                  (''i9'', \<lparr>stamp = 6, tombstone = False, payload = memo ''Added Item 9''\<rparr>)]\<rparr>"

text \<open>What the two replicas show under an item id after a run, if the run succeeded.\<close>

definition shown :: "string \<Rightarrow> ErrorCode + System \<Rightarrow> (VaultItem option \<times> VaultItem option) option" where
  "shown i r =
     (case r of
        Inl e \<Rightarrow> None
      | Inr sys \<Rightarrow> Some (getItem (vault (app sys)) i, getItem (vault (otherApp sys)) i))"

text \<open>The edit of the test: \<open>updateItem(vault, item1, { name: "Edited Item" })\<close>.\<close>

definition rename :: "string \<Rightarrow> VaultItem \<Rightarrow> VaultItem" where
  "rename n d = d\<lparr>item_name := n\<rparr>"

section \<open>Properties of the import adapters\<close>

subsection \<open>Splitting, the field loop and the mapping over rows\<close>

lemma js_split_not_Nil: "js_split c s \<noteq> []"
  by (induction s) (auto split: list.splits)


lemma fields_loop_Some:
  "fields_loop (Some cs) n t row i fs =
     Inr (fs @ map (\<lambda>i. \<lparr>fname = at cs (int i), fvalue = row ! i\<rparr>)
                 (filter (\<lambda>i. int i \<noteq> n \<and> int i \<noteq> t \<and> row ! i \<noteq> []) [i..<length row]))"
proof (induction "Some cs" n t row i fs rule: fields_loop.induct)
  case (1 n t row i fs)
  show ?case
  proof (cases "i < length row")
    case True
    then have up: "[i..<length row] = i # [Suc i..<length row]"
      by (simp add: upt_conv_Cons)
    show ?thesis
    proof (cases "int i \<noteq> n \<and> int i \<noteq> t \<and> row ! i \<noteq> []")
      case keep: True
      with True "1.hyps"(1) [OF True keep refl] up show ?thesis
        by (subst fields_loop.simps) simp
    next
      case skip: False
      with True "1.hyps"(2) [OF True skip] up show ?thesis
        by (subst fields_loop.simps) auto
    qed
  next
    case False
    then show ?thesis
      by (subst fields_loop.simps) simp
  qed
qed

lemma fields_loop_exn: "fields_loop cn n t row i fs = Inl e \<Longrightarrow> e = TypeError"
proof (induction cn n t row i fs rule: fields_loop.induct)
  case (1 cn n t row i fs)
  from "1.prems" show ?case
    by (subst (asm) fields_loop.simps) (auto split: if_splits option.splits intro: "1.IH")
qed

lemma row_item_Some:
  "row_item mk (Some cs) n t row = Inr (mk (at row n) (cells_kept cs n t row) (row_tags row t))"
  by (simp add: row_item_def fields_loop_Some cells_kept_def)

lemma row_item_exn: "row_item mk cn n t row = Inl e \<Longrightarrow> e = TypeError"
  unfolding row_item_def by (auto split: sum.splits dest: fields_loop_exn)

lemma map_exn_total: "(\<And>x. x \<in> set xs \<Longrightarrow> f x = Inr (g x)) \<Longrightarrow> map_exn f xs = Inr (map g xs)"
  by (induction xs) auto

lemma map_exn_exn: "map_exn f xs = Inl e \<Longrightarrow> \<exists>x \<in> set xs. f x = Inl e"
  by (induction xs) (auto split: sum.splits)

lemma default_nameColIndex_exn: "default_nameColIndex cn n = Inl e \<Longrightarrow> e = TypeError"
  by (auto simp: default_nameColIndex_def Let_def split: option.splits)

lemma default_tagsColIndex_exn: "default_tagsColIndex cn t = Inl e \<Longrightarrow> e = TypeError"
  by (auto simp: default_tagsColIndex_def Let_def split: option.splits)

lemma default_nameColIndex_Some: "\<exists>ni. default_nameColIndex (Some cs) n = Inr ni"
  by (auto simp: default_nameColIndex_def Let_def split: option.splits)

lemma default_tagsColIndex_Some: "\<exists>ti. default_tagsColIndex (Some cs) t = Inr ti"
  by (auto simp: default_tagsColIndex_def Let_def split: option.splits)

lemma fromTable_exn: "fromTable mk data n t = Inl e \<Longrightarrow> e = TypeError"
  by (auto simp: fromTable_def Let_def split: sum.splits
      dest!: default_nameColIndex_exn default_tagsColIndex_exn map_exn_exn row_item_exn)

lemma fromTable_header:
  assumes "default_nameColIndex (Some hdr) n = Inr ni"
    and "default_tagsColIndex (Some hdr) t = Inr ti"
  shows "fromTable mk (hdr # rest) n t =
    Inr (map (\<lambda>row. mk (at row ni) (cells_kept hdr ni ti row) (row_tags row ti)) rest)"
  using assms by (simp add: fromTable_def at_def map_exn_total row_item_Some)

lemma cells_kept_set:
  "set (cells_kept cs n t row) =
     {\<lparr>fname = at cs (int i), fvalue = row ! i\<rparr> | i.
        i < length row \<and> int i \<noteq> n \<and> int i \<noteq> t \<and> row ! i \<noteq> []}"
  by (auto simp: cells_kept_def)

text \<open>
  On an empty table \<open>fromTable\<close> throws a \<open>TypeError\<close> when a column index is left
  out (\<open>colNames\<close> is \<open>undefined\<close>), and returns no item when both are given.
\<close>

lemma fromTable_empty_default: "fromTable mk [] None t = Inl TypeError"
  by (simp add: fromTable_def at_def default_nameColIndex_def)

lemma fromTable_empty_given: "fromTable mk [] (Some n) (Some t) = Inr []"
  by (simp add: fromTable_def at_def default_nameColIndex_def default_tagsColIndex_def)

subsection \<open>Format sniffing never throws\<close>



subsection \<open>fromCSV: the error code and the items\<close>

lemma indexOf_takeWhile:
  "indexOf xs x = (if x \<in> set xs then int (length (takeWhile (\<lambda>c. c \<noteq> x) xs)) else - 1)"
  by (induction xs) (auto simp: Let_def)

lemma at_nat: "at xs (int i) = (if i < length xs then Some (xs ! i) else None)"
  by (simp add: at_def)

text \<open>
  Claim C10. For every input string, \<open>fromCSV\<close> rejects with \<open>Err(INVALID_CSV)\<close>, a code
  that is not in the taxonomy of the specification, if and only if the parser reports
  at least one error. Otherwise, for a parsed table with a header row \<open>hdr\<close> and the
  rows \<open>rest\<close> after it, it returns exactly one item per row of \<open>rest\<close>, in order.
  The name column \<open>ni\<close> is the index given, else the first column called \<open>name\<close>,
  else column 0; the tags column \<open>ti\<close> is the index given, else the first column called
  \<open>tags\<close>, else the first called \<open>category\<close>, else none (\<open>-1\<close>). The item of a row
  is what \<open>createVaultItem\<close> makes of the row's cell in the name column (\<open>undefined\<close>
  if the row has none), of the row's cells outside the name column and the tags column
  that are not empty, in order, each under the header's name for its column, and of the
  tags cell split at the commas. A table with no row gives no item when both indices are
  given. The parser is a parameter: the header row is a condition on what it returns.
\<close>

theorem fromCSV_spec:
  assumes ni: "ni = (case n of
                       Some i \<Rightarrow> i
                     | None \<Rightarrow> if ''name'' \<in> set hdr
                               then int (length (takeWhile (\<lambda>c. c \<noteq> ''name'') hdr)) else 0)"
    and ti: "ti = (case t of
                     Some i \<Rightarrow> i
                   | None \<Rightarrow> if ''tags'' \<in> set hdr
                             then int (length (takeWhile (\<lambda>c. c \<noteq> ''tags'') hdr))
                             else if ''category'' \<in> set hdr
                             then int (length (takeWhile (\<lambda>c. c \<noteq> ''category'') hdr))
                             else - 1)"
  shows
    "(fromCSV mk parse data n t = Inl (Err INVALID_CSV) \<longleftrightarrow> errors (parse data) \<noteq> [])
     \<and> INVALID_CSV \<notin> set spec_taxonomy
     \<and> (errors (parse data) = [] \<and> rows (parse data) = hdr # rest \<longrightarrow>
          fromCSV mk parse data n t =
            Inr (map (\<lambda>row.
                   mk (if 0 \<le> ni \<and> ni < int (length row) then Some (row ! nat ni) else None)
                      (map (\<lambda>i. \<lparr>fname = (if i < length hdr then Some (hdr ! i) else None),
                                  fvalue = row ! i\<rparr>)
                         (filter (\<lambda>i. int i \<noteq> ni \<and> int i \<noteq> ti \<and> row ! i \<noteq> [])
                            [0..<length row]))
                      (if 0 \<le> ti \<and> ti < int (length row) \<and> row ! nat ti \<noteq> []
                       then js_split (CHR '','') (row ! nat ti) else []))
                 rest))
     \<and> (errors (parse data) = [] \<and> rows (parse data) = [] \<and> n \<noteq> None \<and> t \<noteq> None \<longrightarrow>
          fromCSV mk parse data n t = Inr [])"
proof (intro conjI impI)
  show "fromCSV mk parse data n t = Inl (Err INVALID_CSV) \<longleftrightarrow> errors (parse data) \<noteq> []"
  proof (cases "errors (parse data) = []")
    case True
    then have "fromCSV mk parse data n t = fromTable mk (rows (parse data)) n t"
      by (simp add: fromCSV_def Let_def)
    moreover have "fromTable mk (rows (parse data)) n t \<noteq> Inl (Err INVALID_CSV)"
      using fromTable_exn [of mk "rows (parse data)" n t "Err INVALID_CSV"] by auto
    ultimately show ?thesis using True by simp
  next
    case False
    then show ?thesis by (simp add: fromCSV_def Let_def)
  qed
  show "INVALID_CSV \<notin> set spec_taxonomy"
    by (simp add: spec_taxonomy_def)
next
  assume a: "errors (parse data) = [] \<and> rows (parse data) = hdr # rest"
  have dn: "default_nameColIndex (Some hdr) n = Inr ni"
    unfolding ni by (simp add: default_nameColIndex_def indexOf_takeWhile Let_def split: option.splits)
  have dt: "default_tagsColIndex (Some hdr) t = Inr ti"
    unfolding ti by (simp add: default_tagsColIndex_def indexOf_takeWhile Let_def split: option.splits)
  have "fromCSV mk parse data n t =
      Inr (map (\<lambda>row. mk (at row ni) (cells_kept hdr ni ti row) (row_tags row ti)) rest)"
    using a fromTable_header [OF dn dt, of mk rest] by (simp add: fromCSV_def Let_def)
  also have "(\<lambda>row. mk (at row ni) (cells_kept hdr ni ti row) (row_tags row ti)) =
     (\<lambda>row.
                   mk (if 0 \<le> ni \<and> ni < int (length row) then Some (row ! nat ni) else None)
                      (map (\<lambda>i. \<lparr>fname = (if i < length hdr then Some (hdr ! i) else None),
                                  fvalue = row ! i\<rparr>)
                         (filter (\<lambda>i. int i \<noteq> ni \<and> int i \<noteq> ti \<and> row ! i \<noteq> [])
                            [0..<length row]))
                      (if 0 \<le> ti \<and> ti < int (length row) \<and> row ! nat ti \<noteq> []
                       then js_split (CHR '','') (row ! nat ti) else []))"
    by (rule ext) (simp add: cells_kept_def at_nat row_tags_def, simp add: at_def)
  finally show "fromCSV mk parse data n t =
            Inr (map (\<lambda>row.
                   mk (if 0 \<le> ni \<and> ni < int (length row) then Some (row ! nat ni) else None)
                      (map (\<lambda>i. \<lparr>fname = (if i < length hdr then Some (hdr ! i) else None),
                                  fvalue = row ! i\<rparr>)
                         (filter (\<lambda>i. int i \<noteq> ni \<and> int i \<noteq> ti \<and> row ! i \<noteq> [])
                            [0..<length row]))
                      (if 0 \<le> ti \<and> ti < int (length row) \<and> row ! nat ti \<noteq> []
                       then js_split (CHR '','') (row ! nat ti) else []))
                 rest)" .
next
  assume "errors (parse data) = [] \<and> rows (parse data) = [] \<and> n \<noteq> None \<and> t \<noteq> None"
  then show "fromCSV mk parse data n t = Inr []"
    by (auto simp: fromCSV_def Let_def fromTable_empty_given)
qed

text \<open>
  The theorem on the CSV text above, with the columns found by name and with the columns
  given, and on a string the parser reports an error for.
\<close>

theorem fromCSV_spec_witness:
  "errors (toy_parse toy_csv) = []
   \<and> rows (toy_parse toy_csv) =
       [[''url'', ''name'', ''category'', ''notes''],
        [''https://github.com'', ''GitHub'', ''dev,work'', '''', ''x''],
        [''a'']]
   \<and> fromCSV toy_item toy_parse toy_csv None None =
       Inr [(Some ''GitHub'',
             [\<lparr>fname = Some ''url'', fvalue = ''https://github.com''\<rparr>,
              \<lparr>fname = None, fvalue = ''x''\<rparr>],
             [''dev'', ''work'']),
            (None, [\<lparr>fname = Some ''url'', fvalue = ''a''\<rparr>], [])]
   \<and> fromCSV toy_item toy_parse toy_csv (Some 0) (Some 1) =
       Inr [(Some ''https://github.com'',
             [\<lparr>fname = Some ''category'', fvalue = ''dev,work''\<rparr>,
              \<lparr>fname = None, fvalue = ''x''\<rparr>],
             [''GitHub'']),
            (Some ''a'', [], [])]
   \<and> errors (toy_parse ''x'') \<noteq> []
   \<and> fromCSV toy_item toy_parse ''x'' None None = Inl (Err INVALID_CSV)"
proof -
  let ?hdr = "[''url'', ''name'', ''category'', ''notes'']"
  let ?rest = "[[''https://github.com'', ''GitHub'', ''dev,work'', '''', ''x''], [''a'']]"
  have e: "errors (toy_parse toy_csv) = []" and r: "rows (toy_parse toy_csv) = ?hdr # ?rest"
    by (simp_all add: toy_parse_def)
  have x: "errors (toy_parse ''x'') \<noteq> []"
    by (simp add: toy_parse_def toy_csv_def)
  have up: "[0..<5] = [0, 1, 2, 3, 4]" "[0..<1] = [0]"
    by (simp_all add: upt_rec)
  have n1: "(1::int) = (case None :: int option of
                       Some i \<Rightarrow> i
                     | None \<Rightarrow> if ''name'' \<in> set ?hdr
                               then int (length (takeWhile (\<lambda>c. c \<noteq> ''name'') ?hdr)) else 0)"
    by simp
  have t1: "(2::int) = (case None :: int option of
                     Some i \<Rightarrow> i
                   | None \<Rightarrow> if ''tags'' \<in> set ?hdr
                             then int (length (takeWhile (\<lambda>c. c \<noteq> ''tags'') ?hdr))
                             else if ''category'' \<in> set ?hdr
                             then int (length (takeWhile (\<lambda>c. c \<noteq> ''category'') ?hdr))
                             else - 1)"
    by simp
  have n2: "(0::int) = (case Some 0 of
                       Some i \<Rightarrow> i
                     | None \<Rightarrow> if ''name'' \<in> set ?hdr
                               then int (length (takeWhile (\<lambda>c. c \<noteq> ''name'') ?hdr)) else 0)"
    by simp
  have t2: "(1::int) = (case Some 1 of
                     Some i \<Rightarrow> i
                   | None \<Rightarrow> if ''tags'' \<in> set ?hdr
                             then int (length (takeWhile (\<lambda>c. c \<noteq> ''tags'') ?hdr))
                             else if ''category'' \<in> set ?hdr
                             then int (length (takeWhile (\<lambda>c. c \<noteq> ''category'') ?hdr))
                             else - 1)"
    by simp
  from fromCSV_spec [OF n1 t1, of toy_item toy_parse toy_csv ?rest] e r
  have a: "fromCSV toy_item toy_parse toy_csv None None =
       Inr [(Some ''GitHub'',
             [\<lparr>fname = Some ''url'', fvalue = ''https://github.com''\<rparr>,
              \<lparr>fname = None, fvalue = ''x''\<rparr>],
             [''dev'', ''work'']),
            (None, [\<lparr>fname = Some ''url'', fvalue = ''a''\<rparr>], [])]"
    by (simp add: up toy_item_def)
  from fromCSV_spec [OF n2 t2, of toy_item toy_parse toy_csv ?rest] e r
  have b: "fromCSV toy_item toy_parse toy_csv (Some 0) (Some 1) =
       Inr [(Some ''https://github.com'',
             [\<lparr>fname = Some ''category'', fvalue = ''dev,work''\<rparr>,
              \<lparr>fname = None, fvalue = ''x''\<rparr>],
             [''GitHub'']),
            (Some ''a'', [], [])]"
    by (simp add: up toy_item_def)
  from fromCSV_spec [OF n1 t1, of toy_item toy_parse "''x''"] x
  have bad: "fromCSV toy_item toy_parse ''x'' None None = Inl (Err INVALID_CSV)" by blast
  from e r x a b bad show ?thesis by simp
qed

section \<open>Properties of the synchronisation model\<close>

subsection \<open>The merge at one id\<close>

text \<open>
  At one id the merge keeps the entry of the greater rank, the local one on equal ranks;
  over association lists it does so under every key.
\<close>

lemma merge_opt_rank: "merge_opt l r = (if rank l < rank r then r else l)"
  by (auto simp: merge_opt_def rank_def merge_entry_def newer_def split: option.splits)

lemma rank_merge_opt: "rank (merge_opt l r) = max (rank l) (rank r)"
  by (simp add: merge_opt_rank max_def)

lemma merge_opt_in: "merge_opt l r = l \<or> merge_opt l r = r"
  by (simp add: merge_opt_rank)

lemma merge_opt_idem: "merge_opt x x = x"
  by (simp add: merge_opt_rank)

lemma map_of_map_keyed:
  "map_of (map (\<lambda>(k, l). (k, f k l)) xs) k = map_option (f k) (map_of xs k)"
  by (induction xs) auto

lemma map_of_filter_key:
  "map_of (filter (\<lambda>(k, r). P k) xs) k = (if P k then map_of xs k else None)"
  by (induction xs) auto

lemma map_of_merge_entries:
  "map_of (merge_entries L R) k = merge_opt (map_of L k) (map_of R k)"
proof -
  note 1 = map_of_map_keyed and 2 = map_of_filter_key
  show ?thesis
    unfolding merge_entries_def map_of_append
    by (simp add: 1 2 map_add_def merge_opt_def split: option.splits)
qed

lemma rank_None: "rank None = 0"
  by (simp add: rank_def)

lemma rank_Some: "rank (Some e) = 2 * stamp e + (if tombstone e then 1 else 0) + 1"
  by (simp add: rank_def)

lemma rank_eq_iff:
  "rank (Some e) = rank (Some e') \<longleftrightarrow> stamp e = stamp e' \<and> tombstone e = tombstone e'"
  unfolding rank_Some by (cases "tombstone e"; cases "tombstone e'"; simp) presburger+

lemma rank_le_iff:
  "rank (Some e) \<le> rank (Some e') \<longleftrightarrow>
     stamp e < stamp e' \<or> (stamp e = stamp e' \<and> (tombstone e \<longrightarrow> tombstone e'))"
  unfolding rank_Some by (cases "tombstone e"; cases "tombstone e'"; simp) arith+

lemma rank_Some_not_None: "rank (Some e) \<noteq> rank None" "rank None \<noteq> rank (Some e)"
  by (simp_all add: rank_def)

lemma rank_Some_le_None: "\<not> rank (Some e) \<le> rank None"
  by (simp add: rank_def)

lemmas rank_simps = rank_eq_iff rank_le_iff rank_Some_not_None rank_Some_le_None

subsection \<open>Requests at one id\<close>

text \<open>
  Every request leaves, at each id, entries that were there before, and never lowers a
  rank; after a push of a device the Server's entry is at least the device's.
\<close>

lemma pstep_comps: "comps (pstep q t) \<subseteq> comps t"
proof -
  obtain a b s where t: "t = (a, b, s)" by (cases t)
  show ?thesis
    using merge_opt_in [of a s] merge_opt_in [of b s] merge_opt_in [of s a] merge_opt_in [of s b]
    unfolding t by (cases "(q, a, b, s)" rule: pstep.cases) (auto simp: comps_def)
qed

lemma pstep_mono:
  "rank (fst t) \<le> rank (fst (pstep q t))
   \<and> rank (fst (snd t)) \<le> rank (fst (snd (pstep q t)))
   \<and> rank (snd (snd t)) \<le> rank (snd (snd (pstep q t)))"
proof -
  obtain a b s where t: "t = (a, b, s)" by (cases t)
  show ?thesis
    unfolding t by (cases "(q, a, b, s)" rule: pstep.cases) (auto simp: rank_merge_opt)
qed

lemma prun_Nil: "prun [] t = t"
  by (simp add: prun_def)

lemma prun_Cons: "prun (q # qs) t = prun qs (pstep q t)"
  by (simp add: prun_def)

lemma prun_append: "prun (qs @ rs) t = prun rs (prun qs t)"
  by (simp add: prun_def)

lemma prun_comps: "comps (prun qs t) \<subseteq> comps t"
proof (induction qs arbitrary: t)
  case Nil
  show ?case by (simp add: prun_Nil)
next
  case (Cons q qs)
  from Cons.IH [of "pstep q t"] pstep_comps [of q t] show ?case
    by (auto simp: prun_Cons)
qed

lemma prun_mono:
  "rank (fst t) \<le> rank (fst (prun qs t))
   \<and> rank (fst (snd t)) \<le> rank (fst (snd (prun qs t)))
   \<and> rank (snd (snd t)) \<le> rank (snd (snd (prun qs t)))"
proof (induction qs arbitrary: t)
  case Nil
  show ?case by (simp add: prun_Nil)
next
  case (Cons q qs)
  from Cons.IH [of "pstep q t"] pstep_mono [of t q] show ?case
    unfolding prun_Cons by (meson le_trans)
qed

lemma prun_pushed_App:
  "Push App \<in> set qs \<Longrightarrow> rank (fst t) \<le> rank (snd (snd (prun qs t)))"
proof (induction qs arbitrary: t)
  case Nil
  then show ?case by simp
next
  case (Cons q qs)
  show ?case
  proof (cases "q = Push App")
    case True
    obtain a b s where t: "t = (a, b, s)" by (cases t)
    have "rank (fst t) \<le> rank (snd (snd (pstep q t)))"
      unfolding t True by (simp add: rank_merge_opt)
    with prun_mono [of "pstep q t" qs] show ?thesis
      unfolding prun_Cons by (meson le_trans)
  next
    case False
    with Cons.prems have "Push App \<in> set qs" by simp
    from Cons.IH [OF this, of "pstep q t"] pstep_mono [of t q] show ?thesis
      unfolding prun_Cons by (meson le_trans)
  qed
qed

lemma prun_pushed_OtherApp:
  "Push OtherApp \<in> set qs \<Longrightarrow> rank (fst (snd t)) \<le> rank (snd (snd (prun qs t)))"
proof (induction qs arbitrary: t)
  case Nil
  then show ?case by simp
next
  case (Cons q qs)
  show ?case
  proof (cases "q = Push OtherApp")
    case True
    obtain a b s where t: "t = (a, b, s)" by (cases t)
    have "rank (fst (snd t)) \<le> rank (snd (snd (pstep q t)))"
      unfolding t True by (simp add: rank_merge_opt)
    with prun_mono [of "pstep q t" qs] show ?thesis
      unfolding prun_Cons by (meson le_trans)
  next
    case False
    with Cons.prems have "Push OtherApp \<in> set qs" by simp
    from Cons.IH [OF this, of "pstep q t"] pstep_mono [of t q] show ?thesis
      unfolding prun_Cons by (meson le_trans)
  qed
qed

text \<open>
  Once the Server holds the entry of greatest rank it keeps it, and a pull makes the
  device hold it too. The ranks of the entries in play must tell them apart: two
  different entries of one rank would each stay where they are.
\<close>

lemma merge_opt_top_left:
  "rank x \<le> rank m \<Longrightarrow> merge_opt m x = m"
  by (simp add: merge_opt_rank)

lemma merge_opt_top_right:
  "inj_on rank C \<Longrightarrow> x \<in> C \<Longrightarrow> m \<in> C \<Longrightarrow> rank x \<le> rank m \<Longrightarrow> merge_opt x m = m"
  by (auto simp: merge_opt_rank dest: inj_onD)

lemma pstep_settled:
  assumes inj: "inj_on rank C" and m: "m \<in> C" and top: "\<forall>x \<in> C. rank x \<le> rank m"
    and st: "settled C m t"
  shows "settled C m (pstep q t)
    \<and> (q = Pull App \<or> fst t = m \<longrightarrow> fst (pstep q t) = m)
    \<and> (q = Pull OtherApp \<or> fst (snd t) = m \<longrightarrow> fst (snd (pstep q t)) = m)"
proof -
  obtain a b s where t: "t = (a, b, s)" by (cases t)
  from st have C: "a \<in> C" "b \<in> C" and s: "s = m"
    by (simp_all add: settled_def comps_def t)
  from top C have le: "rank a \<le> rank m" "rank b \<le> rank m" by auto
  have 1: "merge_opt m a = m" "merge_opt m b = m"
    using le by (simp_all add: merge_opt_top_left)
  have 2: "merge_opt a m = m" "merge_opt b m = m"
    using inj C m le by (simp_all add: merge_opt_top_right)
  show ?thesis
    unfolding t s using C m 1 2
    by (cases "(q, a, b, m)" rule: pstep.cases) (auto simp: settled_def comps_def merge_opt_idem)
qed

lemma prun_settled:
  assumes inj: "inj_on rank C" and m: "m \<in> C" and top: "\<forall>x \<in> C. rank x \<le> rank m"
  shows "settled C m t \<Longrightarrow>
    settled C m (prun qs t)
    \<and> (Pull App \<in> set qs \<or> fst t = m \<longrightarrow> fst (prun qs t) = m)
    \<and> (Pull OtherApp \<in> set qs \<or> fst (snd t) = m \<longrightarrow> fst (snd (prun qs t)) = m)"
proof (induction qs arbitrary: t)
  case Nil
  then show ?case by (simp add: prun_Nil)
next
  case (Cons q qs)
  from pstep_settled [OF inj m top Cons.prems, of q]
  have s: "settled C m (pstep q t)"
    and a: "q = Pull App \<or> fst t = m \<longrightarrow> fst (pstep q t) = m"
    and b: "q = Pull OtherApp \<or> fst (snd t) = m \<longrightarrow> fst (snd (pstep q t)) = m"
    by blast+
  from Cons.IH [OF s] a b show ?case
    unfolding prun_Cons by auto
qed

lemma two_rounds_pointwise:
  assumes inj: "inj_on rank {a, b, s}"
    and r1: "Push App \<in> set r1" "Push OtherApp \<in> set r1"
    and r2: "Pull App \<in> set r2" "Pull OtherApp \<in> set r2"
  shows "\<exists>m. prun (r1 @ r2) (a, b, s) = (m, m, m) \<and> m \<in> {a, b, s}
           \<and> rank a \<le> rank m \<and> rank b \<le> rank m \<and> rank s \<le> rank m"
proof -
  let ?C = "{a, b, s}"
  let ?t = "prun r1 (a, b, s)"
  let ?m = "snd (snd ?t)"
  have sub: "comps ?t \<subseteq> ?C"
    using prun_comps [of r1 "(a, b, s)"] by (simp add: comps_def)
  then have m: "?m \<in> ?C" by (simp add: comps_def)
  have la: "rank a \<le> rank ?m" using prun_pushed_App [OF r1(1), of "(a, b, s)"] by simp
  have lb: "rank b \<le> rank ?m" using prun_pushed_OtherApp [OF r1(2), of "(a, b, s)"] by simp
  have ls: "rank s \<le> rank ?m" using prun_mono [of "(a, b, s)" r1] by simp
  from la lb ls have top: "\<forall>x \<in> ?C. rank x \<le> rank ?m" by simp
  have st: "settled ?C ?m ?t" using sub by (simp add: settled_def)
  from prun_settled [OF inj m top st, of r2] r2
  have "snd (snd (prun r2 ?t)) = ?m" "fst (prun r2 ?t) = ?m" "fst (snd (prun r2 ?t)) = ?m"
    by (simp_all add: settled_def)
  then have "prun (r1 @ r2) (a, b, s) = (?m, ?m, ?m)"
    unfolding prun_append by (metis prod.collapse)
  with m la lb ls show ?thesis by blast
qed

subsection \<open>Requests on the system\<close>

text \<open>
  While the replicas and the Server agree on the membership, every request of a member
  succeeds, the membership stays as it is, and the items evolve id by id as \<open>pstep\<close>
  says.
\<close>

lemma items_merge: "map_of (items (merge l r)) k = merge_opt (map_of (items l) k) (map_of (items r) k)"
  by (simp add: merge_def Let_def map_of_merge_entries)

lemma members_merge:
  "map_of (members (merge l r)) k = merge_opt (map_of (members l) k) (map_of (members r) k)"
  by (simp add: merge_def Let_def map_of_merge_entries)

lemma members_merge_same:
  "map_of (members l) = mv \<Longrightarrow> map_of (members r) = mv \<Longrightarrow> map_of (members (merge l r)) = mv"
  by (rule ext) (auto simp: members_merge merge_opt_idem)

lemma isMember_map: "isMember v a = (case map_of (members v) a of None \<Rightarrow> False | Some e \<Rightarrow> \<not> tombstone e)"
  by (simp add: isMember_def)

lemma step_synced:
  assumes ms: "members_synced mv sys"
    and a: "isMember (server sys) (account (app sys))"
    and b: "isMember (server sys) (account (otherApp sys))"
  shows "\<exists>sys'. step q sys = Inr sys' \<and> members_synced mv sys'
           \<and> account (app sys') = account (app sys)
           \<and> account (otherApp sys') = account (otherApp sys)
           \<and> (\<forall>k. items_at k sys' = pstep q (items_at k sys))"
proof (cases q)
  case (Push d)
  show ?thesis
    using ms a b unfolding Push
    by (cases d) (auto simp: server_push_def members_synced_def items_at_def items_merge
        intro: members_merge_same)
next
  case (Pull d)
  show ?thesis
    using ms a b unfolding Pull
    by (cases d) (auto simp: server_pull_def members_synced_def items_at_def items_merge
        intro: members_merge_same)
qed

lemma run_synced:
  assumes ms: "members_synced mv sys"
    and a: "isMember (server sys) (account (app sys))"
    and b: "isMember (server sys) (account (otherApp sys))"
  shows "\<exists>sys'. run qs sys = Inr sys' \<and> members_synced mv sys'
           \<and> (\<forall>k. items_at k sys' = prun qs (items_at k sys))"
  using assms
proof (induction qs arbitrary: sys)
  case Nil
  then show ?case by (simp add: prun_Nil)
next
  case (Cons q qs)
  from step_synced [OF Cons.prems, of q] obtain sys1 where
    s: "step q sys = Inr sys1" and ms1: "members_synced mv sys1"
    and acc: "account (app sys1) = account (app sys)" "account (otherApp sys1) = account (otherApp sys)"
    and it: "\<forall>k. items_at k sys1 = pstep q (items_at k sys)"
    by blast
  have mem: "isMember (server sys1) x = isMember (server sys) x" for x
    using ms1 Cons.prems(1) by (simp add: isMember_map members_synced_def)
  from Cons.IH [OF ms1] Cons.prems(2,3) acc mem obtain sys' where
    "run qs sys1 = Inr sys'" "members_synced mv sys'" "\<forall>k. items_at k sys' = prun qs (items_at k sys1)"
    by auto
  with s it show ?case by (simp add: prun_Cons)
qed

lemma items_createItem:
  "map_of (items (createItem v i d)) =
     (map_of (items v))(i \<mapsto> \<lparr>stamp = revision v + 1, tombstone = False, payload = d\<rparr>)"
  by (simp add: createItem_def Let_def update_conv')

lemma items_updateItem:
  "map_of (items (updateItem v i upd)) k =
     (if k = i then
        map_option (\<lambda>e. \<lparr>stamp = revision v + 1, tombstone = False, payload = upd (payload e)\<rparr>)
          (map_of (items v) k)
      else map_of (items v) k)"
  by (simp add: updateItem_def Let_def map_of_map_entry split: option.splits)

lemma items_deleteItems:
  "map_of (items (deleteItems v ids)) k =
     (if k \<in> set ids then
        map_option (\<lambda>e. e\<lparr>stamp := revision v + 1, tombstone := True\<rparr>) (map_of (items v) k)
      else map_of (items v) k)"
  by (simp add: deleteItems_def Let_def map_of_map_keyed map_option.identity)

lemma revision_updateItem: "revision (updateItem v i upd) = revision v + 1"
  by (simp add: updateItem_def Let_def)

lemma members_createItem: "members (createItem v i d) = members v"
  by (simp add: createItem_def Let_def)

lemma members_updateItem: "members (updateItem v i upd) = members v"
  by (simp add: updateItem_def Let_def)

lemma members_deleteItems: "members (deleteItems v ids) = members v"
  by (simp add: deleteItems_def Let_def)

lemma isMember_cong: "members v = members w \<Longrightarrow> isMember v a = isMember w a"
  by (simp add: isMember_def)

lemma set_sync_round: "r \<in> sync_round \<Longrightarrow> set r = {Push App, Pull App, Push OtherApp, Pull OtherApp}"
  by (auto simp: sync_round_def syncVault_def dest!: set_shuffles)

text \<open>Lists with the same entries are the same map.\<close>

lemma same_entries_iff: "same_entries xs ys \<longleftrightarrow> map_of xs = map_of ys"
proof
  assume h: "same_entries xs ys"
  show "map_of xs = map_of ys"
  proof (rule ext)
    fix k
    show "map_of xs k = map_of ys k"
    proof (cases "k \<in> fst ` set xs \<union> fst ` set ys")
      case True
      with h show ?thesis by (auto simp: same_entries_def)
    next
      case False
      then have "map_of xs k = None" "map_of ys k = None"
        by (simp_all add: map_of_eq_None_iff)
      then show ?thesis by simp
    qed
  qed
next
  assume "map_of xs = map_of ys"
  then show "same_entries xs ys" by (simp add: same_entries_def)
qed

lemma in_step_maps:
  "in_step a b s \<longleftrightarrow>
     map_of (items a) = map_of (items s) \<and> map_of (items b) = map_of (items s)
     \<and> map_of (members a) = map_of (members s) \<and> map_of (members b) = map_of (members s)"
  by (simp add: in_step_def same_entries_iff)

text \<open>
  Two rounds from a state in which the membership maps agree and, at each id, the ranks
  tell the entries apart: every request succeeds, and the two replicas end in step with
  the Server, which holds at every id the entry of greatest rank among the three held
  there before.
\<close>

lemma two_rounds_in_step:
  assumes ms: "members_synced mv sys"
    and a: "isMember (server sys) (account (app sys))"
    and b: "isMember (server sys) (account (otherApp sys))"
    and r1: "r1 \<in> sync_round" and r2: "r2 \<in> sync_round"
    and inj: "\<And>k. inj_on rank {map_of (items (vault (app sys))) k,
                                 map_of (items (vault (otherApp sys))) k,
                                 map_of (items (server sys)) k}"
  shows "\<exists>sys'. run (r1 @ r2) sys = Inr sys'
     \<and> in_step (vault (app sys')) (vault (otherApp sys')) (server sys')
     \<and> map_of (members (server sys')) = mv
     \<and> (\<forall>k. map_of (items (server sys')) k
               \<in> {map_of (items (vault (app sys))) k,
                   map_of (items (vault (otherApp sys))) k,
                   map_of (items (server sys)) k}
               \<and> rank (map_of (items (vault (app sys))) k) \<le> rank (map_of (items (server sys')) k)
               \<and> rank (map_of (items (vault (otherApp sys))) k) \<le> rank (map_of (items (server sys')) k)
               \<and> rank (map_of (items (server sys)) k) \<le> rank (map_of (items (server sys')) k))"
proof -
  from run_synced [OF ms a b, of "r1 @ r2"] obtain sys' where
    run: "run (r1 @ r2) sys = Inr sys'" and ms': "members_synced mv sys'"
    and it: "\<forall>k. items_at k sys' = prun (r1 @ r2) (items_at k sys)"
    by blast
  have s1: "Push App \<in> set r1" "Push OtherApp \<in> set r1"
    using set_sync_round [OF r1] by simp_all
  have s2: "Pull App \<in> set r2" "Pull OtherApp \<in> set r2"
    using set_sync_round [OF r2] by simp_all
  have pt: "map_of (items (vault (app sys'))) k = map_of (items (server sys')) k
               \<and> map_of (items (vault (otherApp sys'))) k = map_of (items (server sys')) k
               \<and> map_of (items (server sys')) k
                    \<in> {map_of (items (vault (app sys))) k,
                        map_of (items (vault (otherApp sys))) k,
                        map_of (items (server sys)) k}
               \<and> rank (map_of (items (vault (app sys))) k) \<le> rank (map_of (items (server sys')) k)
               \<and> rank (map_of (items (vault (otherApp sys))) k) \<le> rank (map_of (items (server sys')) k)
               \<and> rank (map_of (items (server sys)) k) \<le> rank (map_of (items (server sys')) k)" for k
  proof -
    from two_rounds_pointwise [OF inj [of k] s1 s2] obtain m where
      m: "prun (r1 @ r2) (items_at k sys) = (m, m, m)"
        "m \<in> {map_of (items (vault (app sys))) k,
                        map_of (items (vault (otherApp sys))) k,
                        map_of (items (server sys)) k}"
        "rank (map_of (items (vault (app sys))) k) \<le> rank m"
        "rank (map_of (items (vault (otherApp sys))) k) \<le> rank m"
        "rank (map_of (items (server sys)) k) \<le> rank m"
      unfolding items_at_def by blast
    from it m(1) have "items_at k sys' = (m, m, m)" by simp
    then have "map_of (items (vault (app sys'))) k = m"
       "map_of (items (vault (otherApp sys'))) k = m"
       "map_of (items (server sys')) k = m"
      by (simp_all add: items_at_def)
    with m(2-5) show ?thesis by simp
  qed
  have "map_of (items (vault (app sys'))) = map_of (items (server sys'))"
    "map_of (items (vault (otherApp sys'))) = map_of (items (server sys'))"
    using pt by (auto intro!: ext)
  with ms' have "in_step (vault (app sys')) (vault (otherApp sys')) (server sys')"
    by (simp add: in_step_maps members_synced_def)
  moreover from ms' have "map_of (members (server sys')) = mv"
    by (simp add: members_synced_def)
  ultimately show ?thesis using run pt by blast
qed

lemma in_step_getItem:
  "in_step a b s \<Longrightarrow> getItem a i = getItem s i \<and> getItem b i = getItem s i"
  by (simp add: in_step_maps getItem_def)


subsection \<open>Two rounds, with memberships that differ\<close>









subsection \<open>Stamps stay within the revision counter\<close>

text \<open>
  Local mutations and merges keep every stamp within the vault's revision counter, so a
  local mutation stamps its entry past every entry the replica holds.
\<close>

lemma set_merge_entries:
  "(k, e) \<in> set (merge_entries L R) \<Longrightarrow> (k, e) \<in> set L \<or> (k, e) \<in> set R"
  by (auto simp: merge_entries_def merge_entry_def split: option.splits if_splits dest: map_of_SomeD)

lemma set_map_entry:
  "(k, e) \<in> set (AList.map_entry i f xs) \<Longrightarrow> (k, e) \<in> set xs \<or> (\<exists>e'. (k, e') \<in> set xs \<and> e = f e')"
  by (induction xs) (auto split: if_splits)

lemma set_alist_update:
  "(k, e) \<in> set (AList.update i x xs) \<Longrightarrow> (k, e) \<in> set xs \<or> (k, e) = (i, x)"
  by (induction xs) (auto split: if_splits)

lemma stamps_bounded_createItem: "stamps_bounded v \<Longrightarrow> stamps_bounded (createItem v i d)"
  unfolding stamps_bounded_def createItem_def Let_def
  by (fastforce dest: set_alist_update)

lemma stamps_bounded_updateItem: "stamps_bounded v \<Longrightarrow> stamps_bounded (updateItem v i upd)"
  unfolding stamps_bounded_def updateItem_def Let_def
  by (fastforce dest: set_map_entry)

lemma stamps_bounded_deleteItems: "stamps_bounded v \<Longrightarrow> stamps_bounded (deleteItems v ids)"
  unfolding stamps_bounded_def deleteItems_def Let_def
  by (fastforce split: if_splits)

lemma stamps_bounded_merge:
  assumes l: "stamps_bounded l" and r: "stamps_bounded r"
  shows "stamps_bounded (merge l r)"
proof (cases "merge_entries (items l) (items r) \<noteq> items l \<or> merge_entries (members l) (members r) \<noteq> members l")
  case True
  then have rev: "revision (merge l r) = max (revision l) (revision r) + 1"
    by (simp add: merge_def Let_def)
  have "stamp e \<le> max (revision l) (revision r) + 1"
    if "(k, e) \<in> set (merge_entries (items l) (items r))" for k e
    using set_merge_entries [OF that] l r by (fastforce simp: stamps_bounded_def)
  moreover have "stamp e \<le> max (revision l) (revision r) + 1"
    if "(k, e) \<in> set (merge_entries (members l) (members r))" for k e
    using set_merge_entries [OF that] l r by (fastforce simp: stamps_bounded_def)
  ultimately show ?thesis
    using True by (auto simp: stamps_bounded_def merge_def Let_def)
next
  case False
  then have "merge l r = l"
    by (simp add: merge_def Let_def)
  with l show ?thesis by simp
qed

lemma stamps_bounded_item:
  "stamps_bounded v \<Longrightarrow> map_of (items v) i = Some e \<Longrightarrow> stamp e \<le> revision v"
  by (auto simp: stamps_bounded_def dest!: map_of_SomeD)

lemma step_stamps_bounded:
  assumes "stamps_bounded (vault (app sys))" "stamps_bounded (vault (otherApp sys))"
    "stamps_bounded (server sys)" and "step q sys = Inr sys'"
  shows "stamps_bounded (vault (app sys')) \<and> stamps_bounded (vault (otherApp sys'))
         \<and> stamps_bounded (server sys')"
proof (cases q)
  case (Push d)
  with assms show ?thesis
    by (cases d) (auto simp: server_push_def split: if_splits intro: stamps_bounded_merge)
next
  case (Pull d)
  with assms show ?thesis
    by (cases d) (auto simp: server_pull_def split: if_splits intro: stamps_bounded_merge)
qed

lemma run_stamps_bounded:
  "stamps_bounded (vault (app sys)) \<Longrightarrow> stamps_bounded (vault (otherApp sys)) \<Longrightarrow>
   stamps_bounded (server sys) \<Longrightarrow> run qs sys = Inr sys' \<Longrightarrow>
   stamps_bounded (vault (app sys')) \<and> stamps_bounded (vault (otherApp sys'))
     \<and> stamps_bounded (server sys')"
proof (induction qs arbitrary: sys)
  case Nil
  then show ?case by simp
next
  case (Cons q qs)
  from Cons.prems(4) obtain sys1 where s: "step q sys = Inr sys1" and r: "run qs sys1 = Inr sys'"
    by (auto split: sum.splits)
  from step_stamps_bounded [OF Cons.prems(1-3) s] Cons.IH [OF _ _ _ r] show ?case by blast
qed

text \<open>Merging the same snapshot a second time leaves every entry as the first merge made it.\<close>

lemma merge_entries_map_of_idem:
  "map_of (merge_entries (merge_entries L R) R) = map_of (merge_entries L R)"
  by (rule ext) (simp add: map_of_merge_entries merge_opt_rank)

subsection \<open>The concrete vaults\<close>

lemma sync_round_examples:
  "[Push App, Pull App, Push OtherApp, Pull OtherApp] \<in> sync_round"
  "[Push OtherApp, Push App, Pull App, Pull OtherApp] \<in> sync_round"
  by (simp_all add: sync_round_def syncVault_def)

lemma V0_members: "isMember V0 ''ann''" "isMember V0 ''bob''"
  by (simp_all add: isMember_def V0_def ann_def bob_def)

lemma in_step_examples: "in_step V0 V0 V0" "in_step Va Vb Vs" "in_step Vs Vb Vs"
  by code_simp+

lemma stamps_bounded_examples: "stamps_bounded Va" "stamps_bounded Vb" "stamps_bounded Vs"
  by (simp_all add: stamps_bounded_def Va_def Vb_def Vs_def ann_def bob_def)

lemma Vs_members: "isMember Vs ''ann''" "isMember Vs ''bob''"
  by (simp_all add: isMember_def Vs_def ann_def bob_def)

lemma Vs_items:
  "getItem Vs ''i1'' = Some (memo ''Added Item 1'')" "getItem Vs ''i2'' = Some (memo ''Added Item 2'')"
  "''i1'' \<noteq> ''i2''" "''i3'' \<notin> fst ` set (items Vs)"
  by (simp_all add: getItem_def Vs_def)

subsection \<open>Convergence after two rounds\<close>





subsection \<open>Delete against update\<close>

text \<open>
  One replica deletes an item while the other edits the same item. The edit survives on
  both replicas when its stamp is past the delete's, that is when the editing replica's
  revision counter was ahead; otherwise (on equal stamps too) the item is gone on both.
\<close>

lemma same_item_conflict:
  assumes st: "in_step A0 B0 S0"
    and ma: "isMember S0 accA" and mb: "isMember S0 accB"
    and x: "map_of (items S0) x = Some e" "stamp e \<le> revision A0" "stamp e \<le> revision B0"
    and r1: "r1 \<in> sync_round" and r2: "r2 \<in> sync_round"
  shows "\<exists>sys. run (r1 @ r2)
             \<lparr>app = \<lparr>account = accA, vault = deleteItems A0 [x]\<rparr>,
              otherApp = \<lparr>account = accB, vault = updateItem B0 x u\<rparr>,
              server = S0\<rparr> = Inr sys
           \<and> in_step (vault (app sys)) (vault (otherApp sys)) (server sys)
           \<and> getItem (vault (app sys)) x
                 = (if revision A0 < revision B0 then Some (u (payload e)) else None)
           \<and> getItem (vault (otherApp sys)) x
                 = (if revision A0 < revision B0 then Some (u (payload e)) else None)"
proof -
  let ?A = "deleteItems A0 [x]"
  let ?B = "updateItem B0 x u"
  let ?sys = "\<lparr>app = \<lparr>account = accA, vault = ?A\<rparr>,
              otherApp = \<lparr>account = accB, vault = ?B\<rparr>, server = S0\<rparr>"
  let ?t = "e\<lparr>stamp := revision A0 + 1, tombstone := True\<rparr>"
  let ?u = "\<lparr>stamp = revision B0 + 1, tombstone = False, payload = u (payload e)\<rparr>"
  from st have ia: "map_of (items A0) = map_of (items S0)" and ib: "map_of (items B0) = map_of (items S0)"
    by (simp_all add: in_step_maps)
  have A: "map_of (items ?A) k = (if k = x then Some ?t else map_of (items S0) k)" for k
    using x(1) by (simp add: items_deleteItems ia)
  have B: "map_of (items ?B) k = (if k = x then Some ?u else map_of (items S0) k)" for k
    using x(1) by (simp add: items_updateItem ib)
  have ms: "members_synced (map_of (members S0)) ?sys"
    using st by (simp add: members_synced_def members_updateItem members_deleteItems in_step_maps)
  have inj: "inj_on rank {map_of (items (vault (app ?sys))) k,
                          map_of (items (vault (otherApp ?sys))) k,
                          map_of (items (server ?sys)) k}" for k
    using x by (auto simp: A B rank_simps)
  from two_rounds_in_step [OF ms _ _ r1 r2 inj] ma mb obtain sys where
    run: "run (r1 @ r2) ?sys = Inr sys"
    and st': "in_step (vault (app sys)) (vault (otherApp sys)) (server sys)"
    and pt: "\<And>k. map_of (items (server sys)) k
               \<in> {map_of (items (vault (app ?sys))) k,
                   map_of (items (vault (otherApp ?sys))) k,
                   map_of (items (server ?sys)) k}
               \<and> rank (map_of (items (vault (app ?sys))) k) \<le> rank (map_of (items (server sys)) k)
               \<and> rank (map_of (items (vault (otherApp ?sys))) k) \<le> rank (map_of (items (server sys)) k)
               \<and> rank (map_of (items (server ?sys)) k) \<le> rank (map_of (items (server sys)) k)"
    by auto
  from pt [of x] x have "map_of (items (server sys)) x
      = (if revision A0 < revision B0 then Some ?u else Some ?t)"
    by (auto simp: A B rank_simps)
  then have "getItem (server sys) x = (if revision A0 < revision B0 then Some (u (payload e)) else None)"
    by (simp add: getItem_def)
  with in_step_getItem [OF st'] run st' show ?thesis by simp
qed

text \<open>
  The second half of the test: one replica edits item \<open>id1\<close> and creates item \<open>id3\<close>
  while the other deletes item \<open>id2\<close>.
\<close>

lemma edit_delete_create:
  assumes st: "in_step A0 B0 S0"
    and ma: "isMember S0 accA" and mb: "isMember S0 accB"
    and l1: "map_of (items S0) id1 = Some e1" "\<not> tombstone e1" "stamp e1 \<le> revision A0"
    and l2: "map_of (items S0) id2 = Some e2" "\<not> tombstone e2" "stamp e2 \<le> revision B0"
    and ne: "id1 \<noteq> id2" and f3: "id3 \<notin> fst ` set (items S0)"
    and r1: "r1 \<in> sync_round" and r2: "r2 \<in> sync_round"
  shows
    "\<exists>sys.
           run (r1 @ r2)
             \<lparr>app = \<lparr>account = accA, vault = createItem (updateItem A0 id1 upd) id3 d3\<rparr>,
              otherApp = \<lparr>account = accB, vault = deleteItems B0 [id2]\<rparr>,
              server = S0\<rparr> = Inr sys
           \<and> in_step (vault (app sys)) (vault (otherApp sys)) (server sys)
           \<and> getItem (vault (app sys)) id1 = Some (upd (payload e1))
           \<and> getItem (vault (otherApp sys)) id1 = Some (upd (payload e1))
           \<and> getItem (vault (app sys)) id2 = None
           \<and> getItem (vault (otherApp sys)) id2 = None
           \<and> getItem (vault (app sys)) id3 = Some d3
           \<and> getItem (vault (otherApp sys)) id3 = Some d3"
proof -
  let ?A = "createItem (updateItem A0 id1 upd) id3 d3"
  let ?B = "deleteItems B0 [id2]"
  let ?sys = "\<lparr>app = \<lparr>account = accA, vault = ?A\<rparr>,
              otherApp = \<lparr>account = accB, vault = ?B\<rparr>, server = S0\<rparr>"
  let ?u1 = "\<lparr>stamp = revision A0 + 1, tombstone = False, payload = upd (payload e1)\<rparr>"
  let ?t2 = "e2\<lparr>stamp := revision B0 + 1, tombstone := True\<rparr>"
  let ?e3 = "\<lparr>stamp = revision A0 + 1 + 1, tombstone = False, payload = d3\<rparr>"
  from st have ia: "map_of (items A0) = map_of (items S0)" and ib: "map_of (items B0) = map_of (items S0)"
    by (simp_all add: in_step_maps)
  from f3 have n3: "map_of (items S0) id3 = None"
    by (simp add: map_of_eq_None_iff)
  from n3 l1(1) l2(1) have ne3: "id3 \<noteq> id1" "id3 \<noteq> id2" by auto
  have A: "map_of (items ?A) k =
      (if k = id3 then Some ?e3 else if k = id1 then Some ?u1 else map_of (items S0) k)" for k
    using l1(1) by (simp add: items_createItem items_updateItem revision_updateItem ia)
  have B: "map_of (items ?B) k = (if k = id2 then Some ?t2 else map_of (items S0) k)" for k
    using l2(1) by (simp add: items_deleteItems ib)
  have ms: "members_synced (map_of (members S0)) ?sys"
    using st
    by (simp add: members_synced_def members_createItem members_updateItem members_deleteItems
        in_step_maps)
  have inj: "inj_on rank {map_of (items (vault (app ?sys))) k,
                          map_of (items (vault (otherApp ?sys))) k,
                          map_of (items (server ?sys)) k}" for k
    using n3 ne ne3 l1 l2 by (auto simp: A B rank_simps)
  from two_rounds_in_step [OF ms _ _ r1 r2 inj] ma mb obtain sys where
    run: "run (r1 @ r2) ?sys = Inr sys"
    and st': "in_step (vault (app sys)) (vault (otherApp sys)) (server sys)"
    and pt: "\<And>k. map_of (items (server sys)) k
               \<in> {map_of (items (vault (app ?sys))) k,
                   map_of (items (vault (otherApp ?sys))) k,
                   map_of (items (server ?sys)) k}
               \<and> rank (map_of (items (vault (app ?sys))) k) \<le> rank (map_of (items (server sys)) k)
               \<and> rank (map_of (items (vault (otherApp ?sys))) k) \<le> rank (map_of (items (server sys)) k)
               \<and> rank (map_of (items (server ?sys)) k) \<le> rank (map_of (items (server sys)) k)"
    by auto
  from pt [of id1] ne ne3 l1 have a1: "map_of (items (server sys)) id1 = Some ?u1"
    by (auto simp: A B rank_simps)
  from pt [of id2] ne ne3 l2 have a2: "map_of (items (server sys)) id2 = Some ?t2"
    by (auto simp: A B rank_simps)
  from pt [of id3] ne3 n3 have a3: "map_of (items (server sys)) id3 = Some ?e3"
    by (auto simp: A B rank_simps)
  from a1 a2 a3 have
    "getItem (server sys) id1 = Some (upd (payload e1))"
    "getItem (server sys) id2 = None"
    "getItem (server sys) id3 = Some d3"
    by (simp_all add: getItem_def)
  with in_step_getItem [OF st'] run st' show ?thesis by simp
qed

text \<open>
  Claim C2. In the merge of two entries of one item, a live entry whose stamp is greater
  than a tombstone's wins over it, and a tombstone whose stamp is greater than or equal to
  a live entry's wins over it, whichever side is local. Through two rounds of
  synchronisation, from two members' replicas that are in step with the Server and keep
  their stamps within their revision counters: when one replica deletes item \<open>id1\<close>
  while the other edits it, both end with the edited item if the edit is stamped past the
  delete, and without the item otherwise. And when one replica edits item \<open>id1\<close> and
  creates item \<open>id3\<close> while the other deletes item \<open>id2\<close>, both end with the same
  entries: item \<open>id1\<close> with the edit, no item \<open>id2\<close>, and the new item \<open>id3\<close>.
\<close>

theorem delete_vs_update:
  assumes st: "in_step A0 B0 S0" and ba: "stamps_bounded A0" and bb: "stamps_bounded B0"
    and ma: "isMember S0 accA" and mb: "isMember S0 accB"
    and l1: "getItem S0 id1 = Some d1" and l2: "getItem S0 id2 = Some d2"
    and ne: "id1 \<noteq> id2" and f3: "id3 \<notin> fst ` set (items S0)"
    and r1: "r1 \<in> sync_round" and r2: "r2 \<in> sync_round"
  shows
    "(\<forall>live dead :: VaultItem Entry.
        \<not> tombstone live \<and> tombstone dead \<and> stamp dead < stamp live \<longrightarrow>
          merge_entry live dead = live \<and> merge_entry dead live = live)
     \<and> (\<forall>live dead :: VaultItem Entry.
        \<not> tombstone live \<and> tombstone dead \<and> stamp live \<le> stamp dead \<longrightarrow>
          merge_entry live dead = dead \<and> merge_entry dead live = dead)
     \<and> (\<exists>sys.
           run (r1 @ r2)
             \<lparr>app = \<lparr>account = accA, vault = deleteItems A0 [id1]\<rparr>,
              otherApp = \<lparr>account = accB, vault = updateItem B0 id1 upd\<rparr>,
              server = S0\<rparr> = Inr sys
           \<and> getItem (vault (app sys)) id1
                 = (if revision A0 < revision B0 then Some (upd d1) else None)
           \<and> getItem (vault (otherApp sys)) id1
                 = (if revision A0 < revision B0 then Some (upd d1) else None))
     \<and> (\<exists>sys.
           run (r1 @ r2)
             \<lparr>app = \<lparr>account = accA, vault = createItem (updateItem A0 id1 upd) id3 d3\<rparr>,
              otherApp = \<lparr>account = accB, vault = deleteItems B0 [id2]\<rparr>,
              server = S0\<rparr> = Inr sys
           \<and> map_of (items (vault (app sys))) = map_of (items (vault (otherApp sys)))
           \<and> getItem (vault (app sys)) id1 = Some (upd d1)
           \<and> getItem (vault (otherApp sys)) id1 = Some (upd d1)
           \<and> getItem (vault (app sys)) id2 = None
           \<and> getItem (vault (otherApp sys)) id2 = None
           \<and> getItem (vault (app sys)) id3 = Some d3
           \<and> getItem (vault (otherApp sys)) id3 = Some d3)"
proof -
  have rule1: "\<forall>live dead :: VaultItem Entry.
        \<not> tombstone live \<and> tombstone dead \<and> stamp dead < stamp live \<longrightarrow>
          merge_entry live dead = live \<and> merge_entry dead live = live"
    by (auto simp: merge_entry_def newer_def)
  have rule2: "\<forall>live dead :: VaultItem Entry.
        \<not> tombstone live \<and> tombstone dead \<and> stamp live \<le> stamp dead \<longrightarrow>
          merge_entry live dead = dead \<and> merge_entry dead live = dead"
    by (auto simp: merge_entry_def newer_def)
  from st have ia: "map_of (items A0) = map_of (items S0)" and ib: "map_of (items B0) = map_of (items S0)"
    by (simp_all add: in_step_maps)
  from l1 obtain e1 where e1: "map_of (items S0) id1 = Some e1" "\<not> tombstone e1" "payload e1 = d1"
    by (auto simp: getItem_def split: option.splits if_splits)
  from l2 obtain e2 where e2: "map_of (items S0) id2 = Some e2" "\<not> tombstone e2" "payload e2 = d2"
    by (auto simp: getItem_def split: option.splits if_splits)
  have s1: "stamp e1 \<le> revision A0" "stamp e1 \<le> revision B0"
    using stamps_bounded_item [OF ba, of id1 e1] stamps_bounded_item [OF bb, of id1 e1] e1(1)
    by (simp_all add: ia ib)
  have s2: "stamp e2 \<le> revision B0"
    using stamps_bounded_item [OF bb, of id2 e2] e2(1) by (simp add: ib)
  from same_item_conflict [OF st ma mb e1(1) s1 r1 r2, of upd] e1(3)
  have same: "\<exists>sys.
           run (r1 @ r2)
             \<lparr>app = \<lparr>account = accA, vault = deleteItems A0 [id1]\<rparr>,
              otherApp = \<lparr>account = accB, vault = updateItem B0 id1 upd\<rparr>,
              server = S0\<rparr> = Inr sys
           \<and> getItem (vault (app sys)) id1
                 = (if revision A0 < revision B0 then Some (upd d1) else None)
           \<and> getItem (vault (otherApp sys)) id1
                 = (if revision A0 < revision B0 then Some (upd d1) else None)"
    by auto
  from edit_delete_create [OF st ma mb e1(1,2) s1(1) e2(1,2) s2 ne f3 r1 r2, of upd d3] e1(3)
  have scen: "\<exists>sys.
           run (r1 @ r2)
             \<lparr>app = \<lparr>account = accA, vault = createItem (updateItem A0 id1 upd) id3 d3\<rparr>,
              otherApp = \<lparr>account = accB, vault = deleteItems B0 [id2]\<rparr>,
              server = S0\<rparr> = Inr sys
           \<and> map_of (items (vault (app sys))) = map_of (items (vault (otherApp sys)))
           \<and> getItem (vault (app sys)) id1 = Some (upd d1)
           \<and> getItem (vault (otherApp sys)) id1 = Some (upd d1)
           \<and> getItem (vault (app sys)) id2 = None
           \<and> getItem (vault (otherApp sys)) id2 = None
           \<and> getItem (vault (app sys)) id3 = Some d3
           \<and> getItem (vault (otherApp sys)) id3 = Some d3"
    by (auto simp: in_step_maps)
  from rule1 rule2 same scen show ?thesis by blast
qed

text \<open>
  The theorem on the replicas of the test after the first simultaneous edit, and with the
  deleting replica one revision behind.
\<close>

theorem delete_vs_update_witness:
  "in_step Va Vb Vs \<and> in_step Vs Vb Vs \<and> stamps_bounded Va \<and> stamps_bounded Vb \<and> stamps_bounded Vs
   \<and> isMember Vs ''ann'' \<and> isMember Vs ''bob''
   \<and> getItem Vs ''i1'' = Some (memo ''Added Item 1'')
   \<and> getItem Vs ''i2'' = Some (memo ''Added Item 2'')
   \<and> ''i1'' \<noteq> ''i2'' \<and> ''i3'' \<notin> fst ` set (items Vs)
   \<and> [Push App, Pull App, Push OtherApp, Pull OtherApp] \<in> sync_round
   \<and> [Push OtherApp, Push App, Pull App, Pull OtherApp] \<in> sync_round
   \<and> (\<exists>sys.
        run ([Push App, Pull App, Push OtherApp, Pull OtherApp]
             @ [Push OtherApp, Push App, Pull App, Pull OtherApp])
          \<lparr>app = \<lparr>account = ''ann'', vault = deleteItems Va [''i1'']\<rparr>,
           otherApp = \<lparr>account = ''bob'', vault = updateItem Vb ''i1'' (rename ''Edited Item'')\<rparr>,
           server = Vs\<rparr> = Inr sys
        \<and> getItem (vault (app sys)) ''i1'' = None
        \<and> getItem (vault (otherApp sys)) ''i1'' = None)
   \<and> (\<exists>sys.
        run ([Push App, Pull App, Push OtherApp, Pull OtherApp]
             @ [Push OtherApp, Push App, Pull App, Pull OtherApp])
          \<lparr>app = \<lparr>account = ''ann'', vault = deleteItems Vs [''i1'']\<rparr>,
           otherApp = \<lparr>account = ''bob'', vault = updateItem Vb ''i1'' (rename ''Edited Item'')\<rparr>,
           server = Vs\<rparr> = Inr sys
        \<and> getItem (vault (app sys)) ''i1'' = Some (memo ''Edited Item'')
        \<and> getItem (vault (otherApp sys)) ''i1'' = Some (memo ''Edited Item''))
   \<and> (\<exists>sys.
        run ([Push App, Pull App, Push OtherApp, Pull OtherApp]
             @ [Push OtherApp, Push App, Pull App, Pull OtherApp])
          \<lparr>app = \<lparr>account = ''ann'',
                   vault = createItem (updateItem Va ''i1'' (rename ''Edited Item'')) ''i3''
                             (memo ''Added Item 3'')\<rparr>,
           otherApp = \<lparr>account = ''bob'', vault = deleteItems Vb [''i2'']\<rparr>,
           server = Vs\<rparr> = Inr sys
        \<and> map_of (items (vault (app sys))) = map_of (items (vault (otherApp sys)))
        \<and> getItem (vault (app sys)) ''i1'' = Some (memo ''Edited Item'')
        \<and> getItem (vault (otherApp sys)) ''i1'' = Some (memo ''Edited Item'')
        \<and> getItem (vault (app sys)) ''i2'' = None
        \<and> getItem (vault (otherApp sys)) ''i2'' = None
        \<and> getItem (vault (app sys)) ''i3'' = Some (memo ''Added Item 3'')
        \<and> getItem (vault (otherApp sys)) ''i3'' = Some (memo ''Added Item 3''))"
proof -
  have r: "rename ''Edited Item'' (memo ''Added Item 1'') = memo ''Edited Item''"
    by (simp add: rename_def memo_def)
  have c: "\<not> revision Va < revision Vb" "revision Vs < revision Vb"
    by (simp_all add: Va_def Vb_def Vs_def)
  note tie = delete_vs_update [OF in_step_examples(2) stamps_bounded_examples(1,2) Vs_members
      Vs_items sync_round_examples, of "rename ''Edited Item''" "memo ''Added Item 3''"]
  note past = delete_vs_update [OF in_step_examples(3) stamps_bounded_examples(3,2) Vs_members
      Vs_items sync_round_examples, of "rename ''Edited Item''" "memo ''Added Item 3''"]
  from tie c(1) have a: "\<exists>sys.
        run ([Push App, Pull App, Push OtherApp, Pull OtherApp]
             @ [Push OtherApp, Push App, Pull App, Pull OtherApp])
          \<lparr>app = \<lparr>account = ''ann'', vault = deleteItems Va [''i1'']\<rparr>,
           otherApp = \<lparr>account = ''bob'', vault = updateItem Vb ''i1'' (rename ''Edited Item'')\<rparr>,
           server = Vs\<rparr> = Inr sys
        \<and> getItem (vault (app sys)) ''i1'' = None
        \<and> getItem (vault (otherApp sys)) ''i1'' = None"
    by simp
  from past c(2) have b: "\<exists>sys.
        run ([Push App, Pull App, Push OtherApp, Pull OtherApp]
             @ [Push OtherApp, Push App, Pull App, Pull OtherApp])
          \<lparr>app = \<lparr>account = ''ann'', vault = deleteItems Vs [''i1'']\<rparr>,
           otherApp = \<lparr>account = ''bob'', vault = updateItem Vb ''i1'' (rename ''Edited Item'')\<rparr>,
           server = Vs\<rparr> = Inr sys
        \<and> getItem (vault (app sys)) ''i1'' = Some (memo ''Edited Item'')
        \<and> getItem (vault (otherApp sys)) ''i1'' = Some (memo ''Edited Item'')"
    unfolding r by simp
  from tie have d: "\<exists>sys.
        run ([Push App, Pull App, Push OtherApp, Pull OtherApp]
             @ [Push OtherApp, Push App, Pull App, Pull OtherApp])
          \<lparr>app = \<lparr>account = ''ann'',
                   vault = createItem (updateItem Va ''i1'' (rename ''Edited Item'')) ''i3''
                             (memo ''Added Item 3'')\<rparr>,
           otherApp = \<lparr>account = ''bob'', vault = deleteItems Vb [''i2'']\<rparr>,
           server = Vs\<rparr> = Inr sys
        \<and> map_of (items (vault (app sys))) = map_of (items (vault (otherApp sys)))
        \<and> getItem (vault (app sys)) ''i1'' = Some (memo ''Edited Item'')
        \<and> getItem (vault (otherApp sys)) ''i1'' = Some (memo ''Edited Item'')
        \<and> getItem (vault (app sys)) ''i2'' = None
        \<and> getItem (vault (otherApp sys)) ''i2'' = None
        \<and> getItem (vault (app sys)) ''i3'' = Some (memo ''Added Item 3'')
        \<and> getItem (vault (otherApp sys)) ''i3'' = Some (memo ''Added Item 3'')"
    unfolding r by blast
  from in_step_examples(2,3) stamps_bounded_examples Vs_members Vs_items sync_round_examples a b d
  show ?thesis by blast
qed

subsection \<open>Runs evaluated\<close>

text \<open>
  Runs on the vault of the test, evaluated: two rounds after the two devices have each
  added an item end in the three vaults above; replicas that were behind the Server both
  show the Server's further item after two rounds; after one round, served one device
  after the other, the first device has not seen the second one's item yet; and a request
  of an account that is not a member is refused.
\<close>

lemma sync_twice_example:
  "run ([Push App, Pull App, Push OtherApp, Pull OtherApp]
        @ [Push App, Push OtherApp, Pull OtherApp, Pull App])
     \<lparr>app = \<lparr>account = ''ann'', vault = createItem V0 ''i1'' (memo ''Added Item 1'')\<rparr>,
      otherApp = \<lparr>account = ''bob'', vault = createItem V0 ''i2'' (memo ''Added Item 2'')\<rparr>,
      server = V0\<rparr>
   = Inr \<lparr>app = \<lparr>account = ''ann'', vault = Va\<rparr>, otherApp = \<lparr>account = ''bob'', vault = Vb\<rparr>,
          server = Vs\<rparr>"
  by code_simp

lemma sync_behind_example:
  "shown ''i9''
     (run ([Push App, Pull App, Push OtherApp, Pull OtherApp]
           @ [Push OtherApp, Push App, Pull App, Pull OtherApp])
        \<lparr>app = \<lparr>account = ''ann'', vault = createItem V0 ''i1'' (memo ''Added Item 1'')\<rparr>,
         otherApp = \<lparr>account = ''bob'', vault = createItem Wb ''i2'' (memo ''Added Item 2'')\<rparr>,
         server = Ws\<rparr>)
   = Some (Some (memo ''Added Item 9''), Some (memo ''Added Item 9''))"
  by code_simp

lemma sync_once_example:
  "(case run [Push App, Pull App, Push OtherApp, Pull OtherApp]
          \<lparr>app = \<lparr>account = ''ann'', vault = createItem V0 ''i1'' (memo ''Added Item 1'')\<rparr>,
           otherApp = \<lparr>account = ''bob'', vault = createItem V0 ''i2'' (memo ''Added Item 2'')\<rparr>,
           server = V0\<rparr> of
      Inl e \<Rightarrow> False
    | Inr sys \<Rightarrow>
        getItem (vault (app sys)) ''i2'' = None
        \<and> getItem (vault (otherApp sys)) ''i1'' = Some (memo ''Added Item 1''))"
  by code_simp

lemma sync_non_member_example:
  "run [Push App]
     \<lparr>app = \<lparr>account = ''eve'', vault = V0\<rparr>, otherApp = \<lparr>account = ''bob'', vault = V0\<rparr>,
      server = V0\<rparr> = Inl UNAUTHORIZED"
  by code_simp

end
